theory Spec2Isabelle
  imports Main "HOL-Library.Sublist" "HOL-Library.Multiset"
begin

section \<open>Data model (types.ts)\<close>

text \<open>
  \<^verbatim>\<open>WindowInfo\<close> and \<^verbatim>\<open>WindowGroup\<close> as records, field by field. JavaScript
  strings are modelled as \<open>string\<close>; a character is read as a Latin-1 code point. The field
  \<^verbatim>\<open>id\<close> of a group is called \<open>id'\<close>, since \<open>id\<close> is the identity function of HOL.
\<close>

record WindowInfo =
  appName :: string
  windowTitle :: string
  windowId :: string
  bundleId :: "string option"

record WindowGroup =
  id' :: string
  name :: string
  windows :: "WindowInfo list"
  createdAt :: string
  updatedAt :: string

text \<open>
  \<^verbatim>\<open>GroupsStorage\<close>: the object that is serialised. The source types \<^verbatim>\<open>groups\<close> as an
  array and still guards the read with \<^verbatim>\<open>storage.groups || []\<close>; \<open>None\<close> is an object
  whose \<^verbatim>\<open>groups\<close> property is missing or falsy. (An array, also the empty one, is truthy.)
\<close>

record GroupsStorage =
  groups :: "WindowGroup list option"

section \<open>JavaScript strings\<close>

text \<open>
  \<^verbatim>\<open>String.prototype.trim\<close> removes white space and line terminators at both ends. Of
  the characters ECMAScript lists, those below 256 are TAB, LF, VT, FF, CR, SPACE and
  NO-BREAK SPACE.
\<close>

definition isWhiteSpace :: "char \<Rightarrow> bool" where
  "isWhiteSpace c = (of_char c \<in> {9, 10, 11, 12, 13, 32, 160 :: nat})"

definition trim :: "string \<Rightarrow> string" where
  "trim s = rev (dropWhile isWhiteSpace (rev (dropWhile isWhiteSpace s)))"

text \<open>
  \<^verbatim>\<open>String.prototype.toLowerCase\<close> on Latin-1: the letters A to Z and the accented
  capitals 192 to 222 (without the multiplication sign 215) move up by 32.
\<close>

definition lowerChar :: "char \<Rightarrow> char" where
  "lowerChar c =
     (let n = (of_char c :: nat)
      in if (65 \<le> n \<and> n \<le> 90) \<or> (192 \<le> n \<and> n \<le> 222 \<and> n \<noteq> 215)
         then char_of (n + 32) else c)"

definition toLowerCase :: "string \<Rightarrow> string" where
  "toLowerCase s = map lowerChar s"

text \<open>\<^verbatim>\<open>Number.prototype.toString\<close> on a non-negative integer: its decimal digits.\<close>

fun natToString :: "nat \<Rightarrow> string" where
  "natToString n =
     (if n < 10 then [char_of (48 + n)]
      else natToString (n div 10) @ [char_of (48 + n mod 10)])"

section \<open>Group repository (storage.ts)\<close>

subsection \<open>The host: LocalStorage and the clock\<close>

text \<open>
  What \<^verbatim>\<open>LocalStorage\<close> holds under a key is a text. The model keeps a text by what
  \<^verbatim>\<open>JSON.parse\<close> makes of it: \<open>Text s\<close> is a text \<open>s\<close> that \<^verbatim>\<open>JSON.parse\<close> rejects
  with a SyntaxError (the empty text is one), \<open>Doc d\<close> is the text
  \<^verbatim>\<open>JSON.stringify(d)\<close> of a storage object \<open>d\<close>, which \<^verbatim>\<open>JSON.parse\<close> reads back as
  \<open>d\<close>. That \<^verbatim>\<open>JSON.parse\<close> inverts \<^verbatim>\<open>JSON.stringify\<close> on such objects is ECMAScript's
  guarantee and is built into this representation; the texts of other JSON values are not
  modelled.
\<close>

datatype item = Text string | Doc GroupsStorage

datatype error =
    StorageFault    \<comment> \<open>a rejected \<^verbatim>\<open>LocalStorage\<close> promise\<close>
  | SyntaxError     \<comment> \<open>thrown by \<^verbatim>\<open>JSON.parse\<close>\<close>
  | ScriptFault     \<comment> \<open>a rejected \<^verbatim>\<open>runAppleScript\<close> promise\<close>
  | ScriptError     \<comment> \<open>a script that does not compile, or an AppleScript error no \<^verbatim>\<open>try\<close> catches\<close>

text \<open>
  The host state. \<open>storageFaults\<close> are the outcomes of the coming \<^verbatim>\<open>LocalStorage\<close> calls,
  in order: \<open>True\<close> rejects the call and leaves the store as it is; once the list is used
  up every call succeeds. The clock is read through \<open>clock\<close> at position \<open>tick\<close>: each
  reading gives the milliseconds of \<^verbatim>\<open>Date.now()\<close> and the text of
  \<^verbatim>\<open>new Date().toISOString()\<close> at that moment.
\<close>

record host =
  store :: "string \<rightharpoonup> item"
  storageFaults :: "bool list"
  clock :: "nat \<Rightarrow> nat \<times> string"
  tick :: nat

definition nextFault :: "bool list \<Rightarrow> bool" where
  "nextFault fs = (case fs of [] \<Rightarrow> False | f # _ \<Rightarrow> f)"

definition getItem :: "string \<Rightarrow> host \<Rightarrow> (error + item option) \<times> host" where
  "getItem k h =
     (if nextFault (storageFaults h)
      then (Inl StorageFault, h\<lparr>storageFaults := tl (storageFaults h)\<rparr>)
      else (Inr (store h k), h\<lparr>storageFaults := tl (storageFaults h)\<rparr>))"

definition setItem :: "string \<Rightarrow> item \<Rightarrow> host \<Rightarrow> (error + unit) \<times> host" where
  "setItem k v h =
     (if nextFault (storageFaults h)
      then (Inl StorageFault, h\<lparr>storageFaults := tl (storageFaults h)\<rparr>)
      else (Inr (), h\<lparr>store := (store h)(k \<mapsto> v), storageFaults := tl (storageFaults h)\<rparr>))"

definition dateNow :: "host \<Rightarrow> nat \<times> host" where
  "dateNow h = (fst (clock h (tick h)), h\<lparr>tick := Suc (tick h)\<rparr>)"

definition newDateISO :: "host \<Rightarrow> string \<times> host" where
  "newDateISO h = (snd (clock h (tick h)), h\<lparr>tick := Suc (tick h)\<rparr>)"

definition JSON_parse :: "item \<Rightarrow> error + GroupsStorage" where
  "JSON_parse t = (case t of Text s \<Rightarrow> Inl SyntaxError | Doc d \<Rightarrow> Inr d)"

definition JSON_stringify :: "GroupsStorage \<Rightarrow> item" where
  "JSON_stringify d = Doc d"

text \<open>\<^verbatim>\<open>!data\<close>: \<^verbatim>\<open>undefined\<close> and the empty string are falsy.\<close>

definition falsy :: "item option \<Rightarrow> bool" where
  "falsy data = (data = None \<or> data = Some (Text []))"

subsection \<open>loadGroups, saveGroups\<close>

definition STORAGE_KEY :: string where
  "STORAGE_KEY = ''window-groups''"

text \<open>
  \<^verbatim>\<open>loadGroups\<close>: the whole body is inside \<^verbatim>\<open>try\<close>, and the \<^verbatim>\<open>catch\<close> returns
  \<^verbatim>\<open>[]\<close>, so the function has no error result.
\<close>

definition loadGroups :: "host \<Rightarrow> WindowGroup list \<times> host" where
  "loadGroups h =
     (case getItem STORAGE_KEY h of
        (Inl e, h') \<Rightarrow> ([], h')
      | (Inr data, h') \<Rightarrow>
          if falsy data then ([], h')
          else (case JSON_parse (the data) of
                  Inl e \<Rightarrow> ([], h')
                | Inr storage \<Rightarrow>
                    (case groups storage of None \<Rightarrow> ([], h') | Some gs \<Rightarrow> (gs, h'))))"

text \<open>\<^verbatim>\<open>saveGroups\<close>: the \<^verbatim>\<open>catch\<close> logs and throws the error again.\<close>

definition saveGroups :: "WindowGroup list \<Rightarrow> host \<Rightarrow> (error + unit) \<times> host" where
  "saveGroups gs h =
     (let storage = \<lparr>groups = Some gs\<rparr>
      in case setItem STORAGE_KEY (JSON_stringify storage) h of
           (Inl e, h') \<Rightarrow> (Inl e, h')
         | (Inr u, h') \<Rightarrow> (Inr (), h'))"

subsection \<open>createGroup, deleteGroup\<close>

text \<open>
  \<^verbatim>\<open>createGroup\<close> loads, appends the new group and saves; the three clock readings are
  taken in the order of the object literal. \<^verbatim>\<open>deleteGroup\<close> loads, filters and saves.
  Neither catches anything: the error of \<^verbatim>\<open>saveGroups\<close> reaches the caller.
\<close>

definition createGroup :: "string \<Rightarrow> WindowInfo list \<Rightarrow> host \<Rightarrow> (error + WindowGroup) \<times> host" where
  "createGroup nm ws h =
     (let (gs, h1) = loadGroups h;
          (ms, h2) = dateNow h1;
          (created, h3) = newDateISO h2;
          (updated, h4) = newDateISO h3;
          newGroup = \<lparr>id' = natToString ms, name = nm, windows = ws,
                       createdAt = created, updatedAt = updated\<rparr>
      in case saveGroups (gs @ [newGroup]) h4 of
           (Inl e, h5) \<Rightarrow> (Inl e, h5)
         | (Inr u, h5) \<Rightarrow> (Inr newGroup, h5))"

definition deleteGroup :: "string \<Rightarrow> host \<Rightarrow> (error + unit) \<times> host" where
  "deleteGroup i h =
     (let (gs, h1) = loadGroups h;
          filteredGroups = filter (\<lambda>g. id' g \<noteq> i) gs
      in saveGroups filteredGroups h1)"

section \<open>Creating a group (create-group.tsx)\<close>

definition getWindowKey :: "WindowInfo \<Rightarrow> string" where
  "getWindowKey w = appName w @ ''::'' @ windowTitle w"

text \<open>
  \<^verbatim>\<open>loadOpenWindows\<close> offers the open windows whose key is not used by a stored group.
\<close>

definition available :: "WindowGroup list \<Rightarrow> WindowInfo list \<Rightarrow> WindowInfo list" where
  "available existingGroups ws =
     (let usedKeys = concat (map (\<lambda>g. map getWindowKey (windows g)) existingGroups)
      in filter (\<lambda>w. getWindowKey w \<notin> set usedKeys) ws)"

datatype style = Animated | Success | Failure

datatype toast = Toast style string string

text \<open>
  \<^verbatim>\<open>String(error)\<close>: the wording of a host error is not known to the model; one fixed
  text stands for each kind.
\<close>

fun errorString :: "error \<Rightarrow> string" where
  "errorString StorageFault = ''Error: storage''"
| "errorString SyntaxError = ''SyntaxError''"
| "errorString ScriptFault = ''Error: script''"
| "errorString ScriptError = ''Error: AppleScript''"

text \<open>
  \<^verbatim>\<open>handleSubmit\<close> of the naming form. Every path shows one toast, which is the result
  here; leaving the form (\<^verbatim>\<open>pop\<close>, \<^verbatim>\<open>onComplete\<close>) after a success is navigation and
  is left out.
\<close>

definition handleSubmit :: "string \<Rightarrow> WindowInfo list \<Rightarrow> host \<Rightarrow> toast \<times> host" where
  "handleSubmit valuesName selectedWindows h =
     (let nm = trim valuesName
      in if nm = [] then (Toast Failure ''Group name is required'' [], h)
         else
           (let (existingGroups, h1) = loadGroups h
            in if \<exists>g \<in> set existingGroups. toLowerCase (name g) = toLowerCase nm
               then (Toast Failure ''A group with this name already exists'' [], h1)
               else
                 (let windowsToSave =
                        map (\<lambda>w. \<lparr>appName = appName w, windowTitle = windowTitle w,
                                   windowId = windowId w, bundleId = bundleId w\<rparr>)
                          selectedWindows
                  in case createGroup nm windowsToSave h1 of
                       (Inl e, h2) \<Rightarrow>
                         (Toast Failure ''Error Creating Group'' (errorString e), h2)
                     | (Inr g, h2) \<Rightarrow>
                         (Toast Success ''Group Created''
                            ([CHR 0x22] @ nm @ [CHR 0x22] @ '' with ''
                               @ natToString (length selectedWindows) @ '' window(s)''), h2))))"

section \<open>The window server (windowManager.ts)\<close>

subsection \<open>The desktop that System Events shows\<close>

text \<open>
  The scripts of \<^verbatim>\<open>windowManager.ts\<close> run against System Events. The model keeps what
  they read and write: per process its name, bundle identifier, the flags \<^verbatim>\<open>visible\<close>
  (false for a hidden application), \<^verbatim>\<open>background only\<close> and \<^verbatim>\<open>frontmost\<close>, and
  its windows from front to back; per window its name and the value of its attribute
  \<^verbatim>\<open>AXMinimized\<close>, \<open>None\<close> for a window without that attribute (reading or setting it is
  then an AppleScript error). Assumptions of the model: names and bundle identifiers are
  texts (never \<^verbatim>\<open>missing value\<close>); a window reference taken from
  \<^verbatim>\<open>every window of proc\<close> denotes the same window throughout a loop; the order of the
  windows of a process changes by \<^verbatim>\<open>AXRaise\<close> only, which moves a window to the front.
\<close>

record window =
  title :: string
  minimized :: "bool option"

record process =
  pname :: string
  bundleIdentifier :: string
  visible :: bool
  backgroundOnly :: bool
  frontmost :: bool
  pwindows :: "window list"

text \<open>
  \<open>scriptFaults\<close> are the outcomes of the coming \<^verbatim>\<open>runAppleScript\<close> calls, as
  \<open>storageFaults\<close> are for the store: \<open>True\<close> rejects the call before the script has
  done anything.
\<close>

record desktop =
  procs :: "process list"
  scriptFaults :: "bool list"

text \<open>
  How texts compare while a script runs is a parameter. \<open>scriptEq\<close> is AppleScript's own
  \<^verbatim>\<open>is equal to\<close> (which ignores case unless the script says \<^verbatim>\<open>considering case\<close>; the
  source never does); \<open>serverEq\<close> is the comparison by which System Events resolves
  \<^verbatim>\<open>process "name"\<close> and \<^verbatim>\<open>first window whose name is "title"\<close>. In both the first
  argument is the text written in the script and the second the name found on the desktop.
\<close>

record comparing =
  scriptEq :: "string \<Rightarrow> string \<Rightarrow> bool"
  serverEq :: "string \<Rightarrow> string \<Rightarrow> bool"

definition ignoringCase :: "string \<Rightarrow> string \<Rightarrow> bool" where
  "ignoringCase a b = (map lowerChar a = map lowerChar b)"

definition appleScriptDefault :: comparing where
  "appleScriptDefault = \<lparr>scriptEq = ignoringCase, serverEq = ignoringCase\<rparr>"

definition consideringCase :: comparing where
  "consideringCase = \<lparr>scriptEq = (=), serverEq = (=)\<rparr>"

text \<open>
  The theorems below ask of the two comparisons only that they agree on window keys: names
  that System Events takes for the same give keys that AppleScript takes for equal.
\<close>

definition agreeOnKeys :: "comparing \<Rightarrow> bool" where
  "agreeOnKeys cmp =
     (\<forall>a t n u. serverEq cmp a n \<and> serverEq cmp t u
        \<longrightarrow> scriptEq cmp (a @ ''|||'' @ t) (n @ ''|||'' @ u))"

subsection \<open>Texts written into a script\<close>

text \<open>
  The source places a text between double quotes after \<^verbatim>\<open>replace(/"/g, '\\"')\<close>, which
  puts a backslash before every double quote and nothing else. \<open>readLiteral\<close> is what
  AppleScript reads from the characters between the quotes: \<^verbatim>\<open>\"\<close> and \<^verbatim>\<open>\\\<close> are
  the quote and the backslash, \<^verbatim>\<open>\n\<close>, \<^verbatim>\<open>\r\<close>, \<^verbatim>\<open>\t\<close> the control characters, any
  other escape does not compile. A text with a backslash of its own is therefore read back
  changed or not at all; a quote left without escape ends the literal early, and the model
  counts the script as not compiling. Texts without backslash (\<open>plain\<close>) come back as
  they were, and the theorems about switching are stated for them.
\<close>

fun escapeQuotes :: "string \<Rightarrow> string" where
  "escapeQuotes [] = []"
| "escapeQuotes (c # cs) =
     (if c = CHR 0x22 then CHR 0x5C # CHR 0x22 # escapeQuotes cs else c # escapeQuotes cs)"

definition escapeChar :: "char \<Rightarrow> char option" where
  "escapeChar e =
     (if e = CHR 0x22 \<or> e = CHR 0x5C then Some e
      else if e = CHR ''n'' then Some (CHR 0x0A)
      else if e = CHR ''r'' then Some (CHR 0x0D)
      else if e = CHR ''t'' then Some (CHR 0x09)
      else None)"

fun readLiteral :: "string \<Rightarrow> string option" where
  "readLiteral [] = Some []"
| "readLiteral [c] = (if c = CHR 0x5C \<or> c = CHR 0x22 then None else Some [c])"
| "readLiteral (c # e # cs) =
     (if c = CHR 0x5C
      then (case escapeChar e of
              None \<Rightarrow> None
            | Some x \<Rightarrow> map_option ((#) x) (readLiteral cs))
      else if c = CHR 0x22 then None
      else map_option ((#) c) (readLiteral (e # cs)))"

definition plain :: "string \<Rightarrow> bool" where
  "plain s = (CHR 0x5C \<notin> set s)"

definition plainRef :: "WindowInfo \<Rightarrow> bool" where
  "plainRef w = (plain (appName w) \<and> plain (windowTitle w))"

text \<open>The literals of a list \<^verbatim>\<open>{"a", "b"}\<close>: all of them must compile.\<close>

fun readLiterals :: "string list \<Rightarrow> string list option" where
  "readLiterals [] = Some []"
| "readLiterals (l # ls) =
     (case readLiteral l of
        None \<Rightarrow> None
      | Some s \<Rightarrow> map_option ((#) s) (readLiterals ls))"

subsection \<open>runAppleScript\<close>

type_synonym script = "process list \<Rightarrow> (error + string) \<times> process list"

definition runAppleScript :: "script \<Rightarrow> desktop \<Rightarrow> (error + string) \<times> desktop" where
  "runAppleScript scr d =
     (if nextFault (scriptFaults d)
      then (Inl ScriptFault, d\<lparr>scriptFaults := tl (scriptFaults d)\<rparr>)
      else case scr (procs d) of
             (r, ps) \<Rightarrow> (r, \<lparr>procs = ps, scriptFaults = tl (scriptFaults d)\<rparr>))"

definition RAYCAST :: string where
  "RAYCAST = ''com.raycast.macos''"

text \<open>
  Reading \<^verbatim>\<open>AXMinimized\<close> inside \<^verbatim>\<open>try\<close> with the default \<^verbatim>\<open>false\<close>, and setting
  it: on a window without the attribute the read keeps the default and the write is an
  error, which the \<^verbatim>\<open>try\<close> around each use swallows.
\<close>

definition isMinimized :: "window \<Rightarrow> bool" where
  "isMinimized w = (case minimized w of None \<Rightarrow> False | Some b \<Rightarrow> b)"

definition setMinimized :: "bool \<Rightarrow> window \<Rightarrow> window" where
  "setMinimized b w = (case minimized w of None \<Rightarrow> w | Some _ \<Rightarrow> w\<lparr>minimized := Some b\<rparr>)"

subsection \<open>getOpenWindows\<close>

text \<open>
  The script goes through the visible processes that are not background only and keeps
  the windows with a title other than the empty text that are not minimized; each becomes
  one line \<^verbatim>\<open>name|||title|||bundle\<close>.
\<close>

definition visibleWindows :: "comparing \<Rightarrow> process list \<Rightarrow> (string \<times> string \<times> string) list" where
  "visibleWindows cmp ps =
     concat (map (\<lambda>p.
       if visible p \<and> \<not> backgroundOnly p
       then map (\<lambda>w. (pname p, title w, bundleIdentifier p))
              (filter (\<lambda>w. \<not> scriptEq cmp (title w) [] \<and> \<not> isMinimized w) (pwindows p))
       else []) ps)"

definition openWindowsScript :: "comparing \<Rightarrow> script" where
  "openWindowsScript cmp ps =
     (Inr (concat (map (\<lambda>(procName, winTitle, procBundle).
                          procName @ ''|||'' @ winTitle @ ''|||'' @ procBundle @ [CHR 0x0A])
                     (visibleWindows cmp ps))), ps)"

text \<open>
  \<^verbatim>\<open>String.prototype.split\<close> with a separator that is not empty (the source splits at
  the line feed and at \<^verbatim>\<open>|||\<close>): the pieces between the occurrences of the separator,
  found from the left.
\<close>

function splitFrom :: "string \<Rightarrow> string \<Rightarrow> string \<Rightarrow> string list" where
  "splitFrom sep acc [] = [rev acc]"
| "splitFrom sep acc (c # cs) =
     (if sep \<noteq> [] \<and> prefix sep (c # cs)
      then rev acc # splitFrom sep [] (drop (length sep) (c # cs))
      else splitFrom sep (c # acc) cs)"
  by pat_completeness auto
termination
  by (relation "measure (\<lambda>(sep, acc, s). length s)") (auto simp: neq_Nil_conv)

definition split :: "string \<Rightarrow> string \<Rightarrow> string list" where
  "split sep s = splitFrom sep [] s"

definition parseWindows :: "string \<Rightarrow> WindowInfo list" where
  "parseWindows result =
     (let lines = filter (\<lambda>l. length l > 0) (split [CHR 0x0A] (trim result))
      in concat (map (\<lambda>line.
           let parts = split ''|||'' line
           in if length parts \<ge> 3
              then (let appName = trim (parts ! 0);
                        windowTitle = trim (parts ! 1);
                        bundleId = trim (parts ! 2)
                    in if bundleId = RAYCAST then []
                       else [\<lparr>appName = appName, windowTitle = windowTitle,
                               windowId = appName @ ''::'' @ windowTitle,
                               bundleId = Some bundleId\<rparr>])
              else []) lines))"

definition getOpenWindows :: "comparing \<Rightarrow> desktop \<Rightarrow> WindowInfo list \<times> desktop" where
  "getOpenWindows cmp d =
     (case runAppleScript (openWindowsScript cmp) d of
        (Inl e, d') \<Rightarrow> ([], d')
      | (Inr result, d') \<Rightarrow> (parseWindows result, d'))"

subsection \<open>minimizeAllExcept\<close>

definition winKey :: "string \<Rightarrow> window \<Rightarrow> string" where
  "winKey procName w = procName @ ''|||'' @ title w"

definition shouldKeep :: "comparing \<Rightarrow> string list \<Rightarrow> string \<Rightarrow> window \<Rightarrow> bool" where
  "shouldKeep cmp keepList procName w = (\<exists>k \<in> set keepList. scriptEq cmp k (winKey procName w))"

definition minimizeWindow :: "window \<Rightarrow> window" where
  "minimizeWindow w = (if \<not> isMinimized w then setMinimized True w else w)"

definition minimizeOthers :: "comparing \<Rightarrow> string list \<Rightarrow> process \<Rightarrow> process" where
  "minimizeOthers cmp keepList p =
     (if visible p \<and> \<not> backgroundOnly p
      then (if \<not> scriptEq cmp (bundleIdentifier p) RAYCAST
            then p\<lparr>pwindows :=
                     map (\<lambda>w. if \<not> shouldKeep cmp keepList (pname p) w then minimizeWindow w else w)
                       (pwindows p)\<rparr>
            else p)
      else p)"

definition minimizeAllExceptScript :: "comparing \<Rightarrow> string list \<Rightarrow> script" where
  "minimizeAllExceptScript cmp keepListStr ps =
     (case readLiterals keepListStr of
        None \<Rightarrow> (Inl ScriptError, ps)
      | Some keepList \<Rightarrow> (Inr [], map (minimizeOthers cmp keepList) ps))"

definition keepSet :: "WindowInfo list \<Rightarrow> string list" where
  "keepSet keepWindows = map (\<lambda>w. appName w @ ''|||'' @ windowTitle w) keepWindows"

definition minimizeAllExcept :: "comparing \<Rightarrow> WindowInfo list \<Rightarrow> desktop \<Rightarrow> (error + unit) \<times> desktop" where
  "minimizeAllExcept cmp keepWindows d =
     (let keepListStr = map escapeQuotes (keepSet keepWindows)
      in case runAppleScript (minimizeAllExceptScript cmp keepListStr) d of
           (Inl e, d') \<Rightarrow> (Inl e, d')
         | (Inr r, d') \<Rightarrow> (Inr (), d'))"

subsection \<open>restoreWindows\<close>

text \<open>
  \<open>findIndex\<close> is the position of the first element with a property, by which
  \<^verbatim>\<open>process "name"\<close> and \<^verbatim>\<open>first window whose name is\<close> pick their object.
\<close>

fun findIndex :: "('a \<Rightarrow> bool) \<Rightarrow> 'a list \<Rightarrow> nat option" where
  "findIndex P [] = None"
| "findIndex P (x # xs) = (if P x then Some 0 else map_option Suc (findIndex P xs))"

definition findProcess :: "comparing \<Rightarrow> string \<Rightarrow> process list \<Rightarrow> nat option" where
  "findProcess cmp a ps = findIndex (\<lambda>p. serverEq cmp a (pname p)) ps"

definition findWindow :: "comparing \<Rightarrow> string \<Rightarrow> window list \<Rightarrow> nat option" where
  "findWindow cmp t ws = findIndex (\<lambda>w. serverEq cmp t (title w)) ws"

text \<open>
  \<^verbatim>\<open>set visible of process "name" to true\<close> inside \<^verbatim>\<open>try\<close>: no process of that name
  is no error.
\<close>

definition setVisibleScript :: "comparing \<Rightarrow> string \<Rightarrow> script" where
  "setVisibleScript cmp escapedApp ps =
     (case readLiteral escapedApp of
        None \<Rightarrow> (Inl ScriptError, ps)
      | Some a \<Rightarrow>
          (case findProcess cmp a ps of
             None \<Rightarrow> (Inr [], ps)
           | Some i \<Rightarrow> (Inr [], ps[i := (ps ! i)\<lparr>visible := True\<rparr>])))"

text \<open>
  The script for one window. \<^verbatim>\<open>set frontmost to true\<close> stands outside the inner
  \<^verbatim>\<open>try\<close>: without a process of that name the script fails. It makes the process the
  frontmost one (the model leaves \<open>visible\<close> to the visibility pass). Inside the
  \<^verbatim>\<open>try\<close>, a window that is not found returns \<^verbatim>\<open>"notfound"\<close>; a found one is taken out
  of the dock if it is minimized and raised.
\<close>

definition setFrontmost :: "nat \<Rightarrow> process list \<Rightarrow> process list" where
  "setFrontmost i ps = (map (\<lambda>p. p\<lparr>frontmost := False\<rparr>) ps)[i := (ps ! i)\<lparr>frontmost := True\<rparr>]"

definition unminimize :: "window \<Rightarrow> window" where
  "unminimize w = (if minimized w = Some True then setMinimized False w else w)"

definition raiseWindow :: "nat \<Rightarrow> window list \<Rightarrow> window list" where
  "raiseWindow j ws = unminimize (ws ! j) # take j ws @ drop (Suc j) ws"

definition restoreScript :: "comparing \<Rightarrow> string \<Rightarrow> string \<Rightarrow> script" where
  "restoreScript cmp escapedApp escapedTitle ps =
     (case (readLiteral escapedApp, readLiteral escapedTitle) of
        (Some a, Some t) \<Rightarrow>
          (case findProcess cmp a ps of
             None \<Rightarrow> (Inl ScriptError, ps)
           | Some i \<Rightarrow>
               let ps1 = setFrontmost i ps
               in (case findWindow cmp t (pwindows (ps1 ! i)) of
                     None \<Rightarrow> (Inr ''notfound'', ps1)
                   | Some j \<Rightarrow>
                       (Inr ''found'',
                        ps1[i := (ps1 ! i)\<lparr>pwindows := raiseWindow j (pwindows (ps1 ! i))\<rparr>])))
      | _ \<Rightarrow> (Inl ScriptError, ps))"

text \<open>\<^verbatim>\<open>[...new Set(xs)]\<close>: the elements of \<open>xs\<close> in the order of their first occurrence.\<close>

definition uniqueInOrder :: "'a list \<Rightarrow> 'a list" where
  "uniqueInOrder xs = rev (remdups (rev xs))"

text \<open>The first loop: whatever a call throws is caught and dropped.\<close>

fun makeVisible :: "comparing \<Rightarrow> string list \<Rightarrow> desktop \<Rightarrow> desktop" where
  "makeVisible cmp [] d = d"
| "makeVisible cmp (a # as) d =
     makeVisible cmp as (snd (runAppleScript (setVisibleScript cmp (escapeQuotes a)) d))"

record SwitchResult =
  shown :: nat
  notFound :: "WindowInfo list"

text \<open>
  The second loop, with \<^verbatim>\<open>shown\<close> and \<^verbatim>\<open>notFound\<close> as accumulators: a call that
  returns \<^verbatim>\<open>"found"\<close> counts, every other result and every thrown error appends the
  window to \<^verbatim>\<open>notFound\<close>.
\<close>

fun restoreEach :: "comparing \<Rightarrow> WindowInfo list \<Rightarrow> SwitchResult \<Rightarrow> desktop \<Rightarrow> SwitchResult \<times> desktop" where
  "restoreEach cmp [] acc d = (acc, d)"
| "restoreEach cmp (w # ws) acc d =
     (case runAppleScript
             (restoreScript cmp (escapeQuotes (appName w)) (escapeQuotes (windowTitle w))) d of
        (Inr result, d') \<Rightarrow>
          if trim result = ''found''
          then restoreEach cmp ws (acc\<lparr>shown := shown acc + 1\<rparr>) d'
          else restoreEach cmp ws (acc\<lparr>notFound := notFound acc @ [w]\<rparr>) d'
      | (Inl e, d') \<Rightarrow> restoreEach cmp ws (acc\<lparr>notFound := notFound acc @ [w]\<rparr>) d')"

definition restoreWindows :: "comparing \<Rightarrow> WindowInfo list \<Rightarrow> desktop \<Rightarrow> SwitchResult \<times> desktop" where
  "restoreWindows cmp savedWindows d =
     (let uniqueApps = uniqueInOrder (map appName savedWindows);
          d1 = makeVisible cmp uniqueApps d
      in restoreEach cmp savedWindows \<lparr>shown = 0, notFound = []\<rparr> d1)"

section \<open>Switching to a group (switch-group.tsx)\<close>

text \<open>
  \<open>switchTo\<close> is the body of the \<^verbatim>\<open>try\<close> in \<^verbatim>\<open>switchToGroup\<close>: minimize everything
  else, then restore the windows of the group. \<open>switchToGroup\<close> adds the toast; its
  \<^verbatim>\<open>catch\<close> is the caller that a failed switch reaches. (The same lines are
  \<^verbatim>\<open>handleSwitchToGroup\<close> of manage-groups.tsx. \<^verbatim>\<open>setActiveGroupId\<close> is state of the
  list view and is left out.)
\<close>

definition switchTo :: "comparing \<Rightarrow> WindowInfo list \<Rightarrow> desktop \<Rightarrow> (error + SwitchResult) \<times> desktop" where
  "switchTo cmp groupWindows d =
     (case minimizeAllExcept cmp groupWindows d of
        (Inl e, d1) \<Rightarrow> (Inl e, d1)
      | (Inr u, d1) \<Rightarrow>
          (case restoreWindows cmp groupWindows d1 of (result, d2) \<Rightarrow> (Inr result, d2)))"


section \<open>Notions for the statements about a switch\<close>

text \<open>
  \<open>target\<close> is the window that the script of \<^verbatim>\<open>restoreWindows\<close> picks for a
  reference: the position of the first process taken for the application name and, among
  its windows, the position of the first window taken for the title. The reference is
  \<open>findable\<close> when there is such a window, \<open>restored\<close> when that window is not
  minimized, and \<open>raised\<close> when it is the frontmost window of its process.
\<close>

definition target :: "comparing \<Rightarrow> WindowInfo \<Rightarrow> process list \<Rightarrow> (nat \<times> nat) option" where
  "target cmp r ps =
     (case findProcess cmp (appName r) ps of
        None \<Rightarrow> None
      | Some i \<Rightarrow>
          (case findWindow cmp (windowTitle r) (pwindows (ps ! i)) of
             None \<Rightarrow> None
           | Some j \<Rightarrow> Some (i, j)))"

definition findable :: "comparing \<Rightarrow> WindowInfo \<Rightarrow> process list \<Rightarrow> bool" where
  "findable cmp r ps = (target cmp r ps \<noteq> None)"

text \<open>
  \<open>scriptTarget\<close> is the same window for a reference as the scripts receive it: its two
  names are written into the script with \<open>escapeQuotes\<close> and read there as literals, and
  the lookups run on what was read. The reference is found live (\<open>foundLive\<close>) on a
  desktop when both literals are read and the process and the window exist. For names
  without backslash \<open>scriptTarget\<close> is \<open>target\<close>.
\<close>

definition scriptTarget :: "comparing \<Rightarrow> WindowInfo \<Rightarrow> process list \<Rightarrow> (nat \<times> nat) option" where
  "scriptTarget cmp w ps =
     (case (readLiteral (escapeQuotes (appName w)), readLiteral (escapeQuotes (windowTitle w))) of
        (Some a, Some t) \<Rightarrow>
          (case findProcess cmp a ps of
             None \<Rightarrow> None
           | Some i \<Rightarrow>
               (case findWindow cmp t (pwindows (ps ! i)) of
                  None \<Rightarrow> None
                | Some j \<Rightarrow> Some (i, j)))
      | _ \<Rightarrow> None)"


definition restored :: "comparing \<Rightarrow> WindowInfo \<Rightarrow> process list \<Rightarrow> bool" where
  "restored cmp r ps =
     (case target cmp r ps of
        None \<Rightarrow> False
      | Some (i, j) \<Rightarrow> minimized (pwindows (ps ! i) ! j) \<noteq> Some True)"

definition raised :: "comparing \<Rightarrow> WindowInfo \<Rightarrow> process list \<Rightarrow> bool" where
  "raised cmp r ps = (case target cmp r ps of None \<Rightarrow> False | Some (i, j) \<Rightarrow> j = 0)"

definition settled :: "comparing \<Rightarrow> WindowInfo \<Rightarrow> process list \<Rightarrow> bool" where
  "settled cmp r ps = (findable cmp r ps \<longrightarrow> restored cmp r ps)"

text \<open>
  The processes that the script of \<^verbatim>\<open>minimizeAllExcept\<close> goes through are \<open>inScope\<close>:
  visible, not background only, and not the tool itself. A process has its
  \<open>othersMinimized\<close> when every window of it that the keep list does not cover is
  minimized or has no \<^verbatim>\<open>AXMinimized\<close> attribute.
\<close>

definition inScope :: "comparing \<Rightarrow> process \<Rightarrow> bool" where
  "inScope cmp p =
     (visible p \<and> \<not> backgroundOnly p \<and> \<not> scriptEq cmp (bundleIdentifier p) RAYCAST)"

definition othersMinimized :: "comparing \<Rightarrow> string list \<Rightarrow> process \<Rightarrow> bool" where
  "othersMinimized cmp keepList p =
     (\<forall>w \<in> set (pwindows p).
        \<not> shouldKeep cmp keepList (pname p) w \<longrightarrow> minimized w \<noteq> Some False)"

text \<open>
  The applications of a group are visible when the process that stands for each
  application name (if there is one) is not hidden.
\<close>

definition appsVisible :: "comparing \<Rightarrow> WindowInfo list \<Rightarrow> process list \<Rightarrow> bool" where
  "appsVisible cmp ws ps =
     (\<forall>r \<in> set ws.
        case findProcess cmp (appName r) ps of None \<Rightarrow> True | Some i \<Rightarrow> visible (ps ! i))"

text \<open>
  What the scripts never change in a process (\<open>static\<close>), these together with
  \<open>visible\<close> (\<open>flags\<close>), and the names that the lookups see (\<open>shape\<close>).
  \<open>kept_by_loops\<close> relates the processes before and after the two loops of
  \<^verbatim>\<open>restoreWindows\<close>: same places, same names, and what the first step minimized
  stays minimized.
\<close>

definition static :: "process \<Rightarrow> process \<Rightarrow> bool" where
  "static p p' =
     (pname p' = pname p \<and> bundleIdentifier p' = bundleIdentifier p
      \<and> backgroundOnly p' = backgroundOnly p)"

definition flags :: "process \<Rightarrow> string \<times> string \<times> bool \<times> bool" where
  "flags p = (pname p, bundleIdentifier p, backgroundOnly p, visible p)"

definition shape :: "process list \<Rightarrow> (string \<times> string set) list" where
  "shape ps = map (\<lambda>p. (pname p, title ` set (pwindows p))) ps"

definition kept_by_loops :: "comparing \<Rightarrow> string list \<Rightarrow> process list \<Rightarrow> process list \<Rightarrow> bool" where
  "kept_by_loops cmp keep ps0 ps =
     (length ps = length ps0
      \<and> (\<forall>k < length ps0. static (ps0 ! k) (ps ! k)
            \<and> (othersMinimized cmp keep (ps0 ! k) \<longrightarrow> othersMinimized cmp keep (ps ! k))))"

section \<open>Sample data\<close>

text \<open>Concrete references, groups, hosts and desktops, on which the theorems are run.\<close>

definition ref :: "string \<Rightarrow> string \<Rightarrow> WindowInfo" where
  "ref a t = \<lparr>appName = a, windowTitle = t, windowId = a @ ''::'' @ t, bundleId = None\<rparr>"

definition sampleGroup :: "string \<Rightarrow> string \<Rightarrow> WindowGroup" where
  "sampleGroup i n =
     \<lparr>id' = i, name = n, windows = [ref ''Cursor'' ''main.ts''],
      createdAt = ''2024-01-01T00:00:00.000Z'', updatedAt = ''2024-01-01T00:00:00.000Z''\<rparr>"

definition hostWith :: "WindowGroup list \<Rightarrow> bool list \<Rightarrow> host" where
  "hostWith gs fs =
     \<lparr>store = Map.empty(STORAGE_KEY \<mapsto> Doc \<lparr>groups = Some gs\<rparr>), storageFaults = fs,
      clock = (\<lambda>n. (1700000000000 + n, ''2023-11-14T22:13:20.000Z'')), tick = 0\<rparr>"

definition emptyHost :: "bool list \<Rightarrow> host" where
  "emptyHost fs =
     \<lparr>store = Map.empty, storageFaults = fs,
      clock = (\<lambda>n. (1700000000000 + n, ''2023-11-14T22:13:20.000Z'')), tick = 0\<rparr>"

definition win :: "string \<Rightarrow> bool \<Rightarrow> window" where
  "win t m = \<lparr>title = t, minimized = Some m\<rparr>"

definition app :: "string \<Rightarrow> bool \<Rightarrow> window list \<Rightarrow> process" where
  "app n v ws =
     \<lparr>pname = n, bundleIdentifier = ''com.example.'' @ n, visible = v, backgroundOnly = False,
      frontmost = False, pwindows = ws\<rparr>"

text \<open>
  The group and the desktop of the scenario in the specification, with one more window
  of Cursor, the main window of which is in the dock; the desktop after the switch.
\<close>

definition devGroup :: "WindowInfo list" where
  "devGroup = [ref ''Cursor'' ''main.ts'', ref ''Terminal'' ''bash'']"

definition devDesktop :: desktop where
  "devDesktop =
     \<lparr>procs = [app ''Cursor'' True [win ''main.ts'' True, win ''notes.md'' False],
               app ''Terminal'' True [win ''bash'' False],
               app ''Notes'' True [win ''Untitled'' False]],
      scriptFaults = []\<rparr>"

definition devSwitched :: desktop where
  "devSwitched =
     \<lparr>procs = [app ''Cursor'' True [win ''main.ts'' False, win ''notes.md'' True],
               (app ''Terminal'' True [win ''bash'' False])\<lparr>frontmost := True\<rparr>,
               app ''Notes'' True [win ''Untitled'' True]],
      scriptFaults = []\<rparr>"

text \<open>
  A group with two windows of one application, on a desktop with the tool itself and a
  hidden application; a desktop on which the application of the group is hidden.
\<close>

definition raycastProcess :: process where
  "raycastProcess =
     \<lparr>pname = ''Raycast'', bundleIdentifier = ''com.raycast.macos'', visible = True,
      backgroundOnly = False, frontmost = True, pwindows = [win ''Raycast Settings'' False]\<rparr>"

definition twoOfOneApp :: "WindowInfo list" where
  "twoOfOneApp = [ref ''Cursor'' ''main.ts'', ref ''Cursor'' ''notes.md'']"

definition mixedDesktop :: desktop where
  "mixedDesktop =
     \<lparr>procs = [app ''Cursor'' True [win ''main.ts'' False, win ''notes.md'' False],
               raycastProcess,
               app ''Mail'' False [win ''Inbox'' False]],
      scriptFaults = []\<rparr>"

definition hiddenDesktop :: desktop where
  "hiddenDesktop =
     \<lparr>procs = [app ''Cursor'' False [win ''main.ts'' False, win ''notes.md'' False]],
      scriptFaults = []\<rparr>"






section \<open>Persistence\<close>

lemmas storage_defs = loadGroups_def saveGroups_def getItem_def setItem_def falsy_def
  JSON_parse_def JSON_stringify_def

text \<open>
  Claim C6. A load that faults returns the empty list and no error: when the storage read
  is rejected, when nothing is stored under the key, and when the stored text is empty or
  does not parse. A save whose storage write is rejected returns that error to the caller
  and leaves the store as it was.
\<close>

theorem loadGroups_saveGroups_faults:
  "(nextFault (storageFaults h) \<longrightarrow> fst (loadGroups h) = [])
   \<and> (store h STORAGE_KEY = None \<longrightarrow> fst (loadGroups h) = [])
   \<and> (store h STORAGE_KEY = Some (Text s) \<longrightarrow> fst (loadGroups h) = [])
   \<and> (nextFault (storageFaults h) \<longrightarrow>
        fst (saveGroups gs h) = Inl StorageFault \<and> store (snd (saveGroups gs h)) = store h)"
  by (simp add: storage_defs)

theorem loadGroups_saveGroups_faults_witness:
  "nextFault [True]
   \<and> fst (loadGroups (hostWith [sampleGroup ''1'' ''Work''] [True])) = []
   \<and> fst (loadGroups (emptyHost [])) = []
   \<and> fst (loadGroups ((emptyHost [])\<lparr>store := Map.empty(STORAGE_KEY \<mapsto> Text ''{oops'')\<rparr>)) = []
   \<and> fst (saveGroups [sampleGroup ''1'' ''Work''] (emptyHost [True])) = Inl StorageFault"
  using loadGroups_saveGroups_faults [of "hostWith [sampleGroup ''1'' ''Work''] [True]"]
    loadGroups_saveGroups_faults [of "emptyHost []"]
    loadGroups_saveGroups_faults
      [of "(emptyHost [])\<lparr>store := Map.empty(STORAGE_KEY \<mapsto> Text ''{oops'')\<rparr>" "''{oops''"]
    loadGroups_saveGroups_faults [of "emptyHost [True]" _ "[sampleGroup ''1'' ''Work'']"]
  by (simp add: nextFault_def hostWith_def emptyHost_def)

text \<open>
  Claim C10, as it stands, fails when the read of the following load is rejected: the save
  has succeeded, and the load returns the empty list.
\<close>

theorem save_then_load_counterexample:
  "fst (saveGroups [sampleGroup ''1'' ''Work''] (emptyHost [False, True])) = Inr ()
   \<and> fst (loadGroups (snd (saveGroups [sampleGroup ''1'' ''Work''] (emptyHost [False, True])))) = []"
  by (simp add: storage_defs emptyHost_def nextFault_def)

text \<open>
  Claim C10, amended. If \<open>saveGroups gs\<close> succeeds and the storage read of the load that
  follows is not rejected, that load returns exactly \<open>gs\<close>: the same groups in the same
  order with the same fields.
\<close>

theorem save_then_load:
  "fst (saveGroups gs h) = Inr () \<Longrightarrow> \<not> nextFault (storageFaults (snd (saveGroups gs h)))
   \<Longrightarrow> fst (loadGroups (snd (saveGroups gs h))) = gs"
  by (auto simp: storage_defs split: if_splits)

theorem save_then_load_witness:
  "fst (saveGroups [sampleGroup ''1'' ''Work''] (emptyHost [])) = Inr ()
   \<and> \<not> nextFault (storageFaults (snd (saveGroups [sampleGroup ''1'' ''Work''] (emptyHost []))))
   \<and> fst (loadGroups (snd (saveGroups [sampleGroup ''1'' ''Work''] (emptyHost []))))
       = [sampleGroup ''1'' ''Work'']"
  using save_then_load [of "[sampleGroup ''1'' ''Work'']" "emptyHost []"]
  by (simp add: storage_defs emptyHost_def nextFault_def)

text \<open>
  Claim C8, as it stands, fails when the storage write of \<open>deleteGroup\<close> is rejected: no
  group has the id, and the call ends in an error instead of succeeding.
\<close>

theorem deleteGroup_counterexample:
  "fst (loadGroups (hostWith [sampleGroup ''1'' ''Work''] [])) = [sampleGroup ''1'' ''Work'']
   \<and> id' (sampleGroup ''1'' ''Work'') \<noteq> ''2''
   \<and> fst (deleteGroup ''2'' (hostWith [sampleGroup ''1'' ''Work''] [False, True])) = Inl StorageFault"
  by (simp add: deleteGroup_def storage_defs hostWith_def nextFault_def sampleGroup_def)

text \<open>
  Claim C8, amended. When the storage read and the storage write of \<open>deleteGroup i\<close> are
  not rejected, the call succeeds and stores the loaded groups without those of id \<open>i\<close>,
  every other group as it was (with its \<open>updatedAt\<close>) and in the same order; a following
  load whose read is not rejected returns that list; and when no group has the id the list
  is the one loaded before. When the write is rejected, the error reaches the caller and
  the store is unchanged.
\<close>

theorem deleteGroup_removes_only_id:
  "(\<not> nextFault (storageFaults h) \<and> \<not> nextFault (tl (storageFaults h)) \<longrightarrow>
      fst (deleteGroup i h) = Inr ()
    \<and> store (snd (deleteGroup i h)) STORAGE_KEY
        = Some (Doc \<lparr>groups = Some (filter (\<lambda>g. id' g \<noteq> i) (fst (loadGroups h)))\<rparr>)
    \<and> (\<not> nextFault (tl (tl (storageFaults h))) \<longrightarrow>
         fst (loadGroups (snd (deleteGroup i h))) = filter (\<lambda>g. id' g \<noteq> i) (fst (loadGroups h)))
    \<and> (i \<notin> id' ` set (fst (loadGroups h)) \<longrightarrow>
         filter (\<lambda>g. id' g \<noteq> i) (fst (loadGroups h)) = fst (loadGroups h)))
   \<and> (nextFault (tl (storageFaults h)) \<longrightarrow>
      fst (deleteGroup i h) = Inl StorageFault \<and> store (snd (deleteGroup i h)) = store h)"
  by (auto simp: deleteGroup_def storage_defs Let_def
      split: if_splits option.splits item.splits prod.splits intro!: filter_True)

theorem deleteGroup_removes_only_id_witness:
  "fst (deleteGroup ''1'' (hostWith [sampleGroup ''1'' ''Work'', sampleGroup ''2'' ''Home''] [])) = Inr ()
   \<and> fst (loadGroups (snd (deleteGroup ''1''
        (hostWith [sampleGroup ''1'' ''Work'', sampleGroup ''2'' ''Home''] []))))
       = [sampleGroup ''2'' ''Home'']
   \<and> fst (loadGroups (snd (deleteGroup ''3''
        (hostWith [sampleGroup ''1'' ''Work'', sampleGroup ''2'' ''Home''] []))))
       = [sampleGroup ''1'' ''Work'', sampleGroup ''2'' ''Home'']
   \<and> fst (deleteGroup ''1'' (hostWith [sampleGroup ''1'' ''Work''] [False, True])) = Inl StorageFault"
  using deleteGroup_removes_only_id
      [of "hostWith [sampleGroup ''1'' ''Work'', sampleGroup ''2'' ''Home''] []" "''1''"]
    deleteGroup_removes_only_id
      [of "hostWith [sampleGroup ''1'' ''Work'', sampleGroup ''2'' ''Home''] []" "''3''"]
    deleteGroup_removes_only_id [of "hostWith [sampleGroup ''1'' ''Work''] [False, True]" "''1''"]
  by (simp add: storage_defs hostWith_def nextFault_def sampleGroup_def)

section \<open>Creating a group\<close>

text \<open>
  Claim C7, as it stands, fails when the storage read of the form is rejected. The stored
  collection holds a group named \<open>Work\<close>; \<open>loadGroups\<close> answers the rejected read with
  the empty list, so the form finds no name to collide with and creates \<open>work\<close>. The
  read inside \<open>createGroup\<close> is not rejected, and both groups are stored afterwards.
\<close>

theorem handleSubmit_name_collision_counterexample:
  "store (hostWith [sampleGroup ''1'' ''Work''] [True]) STORAGE_KEY
     = Some (Doc \<lparr>groups = Some [sampleGroup ''1'' ''Work'']\<rparr>)
   \<and> name (sampleGroup ''1'' ''Work'') = ''Work''
   \<and> fst (handleSubmit ''work'' [ref ''Notes'' ''Untitled''] (hostWith [sampleGroup ''1'' ''Work''] [True]))
       = Toast Success ''Group Created'' ([CHR 0x22] @ ''work'' @ [CHR 0x22] @ '' with 1 window(s)'')
   \<and> map name (fst (loadGroups (snd (handleSubmit ''work'' [ref ''Notes'' ''Untitled'']
                                        (hostWith [sampleGroup ''1'' ''Work''] [True])))))
       = [''Work'', ''work'']"
proof -
  have t: "trim ''work'' = ''work''"
    by code_simp
  have n: "natToString (length [ref ''Notes'' ''Untitled'']) = ''1''"
    by code_simp
  show ?thesis
    unfolding handleSubmit_def t Let_def n
    by (simp add: createGroup_def storage_defs hostWith_def nextFault_def dateNow_def
        newDateISO_def sampleGroup_def split_def Let_def del: natToString.simps)
qed

text \<open>
  Claim C7, amended. When the storage read of the form is not rejected and the stored
  collection holds a group whose name equals the trimmed input after \<open>toLowerCase\<close> (as
  \<open>Work\<close> and \<open>work\<close> do), submitting ends with the toast of the name collision and
  the store is what it was: no group is added.
\<close>

theorem handleSubmit_name_collision:
  "trim n \<noteq> [] \<Longrightarrow> \<not> nextFault (storageFaults h)
   \<Longrightarrow> store h STORAGE_KEY = Some (Doc \<lparr>groups = Some gs\<rparr>) \<Longrightarrow> g \<in> set gs
   \<Longrightarrow> toLowerCase (name g) = toLowerCase (trim n)
   \<Longrightarrow> fst (handleSubmit n sel h) = Toast Failure ''A group with this name already exists'' []
     \<and> store (snd (handleSubmit n sel h)) = store h"
  by (auto simp: handleSubmit_def Let_def storage_defs
      split: prod.splits if_splits sum.splits option.splits item.splits)

theorem handleSubmit_name_collision_witness:
  "trim ''work'' \<noteq> []
   \<and> \<not> nextFault (storageFaults (hostWith [sampleGroup ''1'' ''Work''] []))
   \<and> store (hostWith [sampleGroup ''1'' ''Work''] []) STORAGE_KEY
       = Some (Doc \<lparr>groups = Some [sampleGroup ''1'' ''Work'']\<rparr>)
   \<and> name (sampleGroup ''1'' ''Work'') = ''Work''
   \<and> fst (handleSubmit ''work'' [ref ''Notes'' ''Untitled''] (hostWith [sampleGroup ''1'' ''Work''] []))
     = Toast Failure ''A group with this name already exists'' []
   \<and> store (snd (handleSubmit ''work'' [ref ''Notes'' ''Untitled'']
                    (hostWith [sampleGroup ''1'' ''Work''] [])))
     = store (hostWith [sampleGroup ''1'' ''Work''] [])"
proof -
  have a: "trim ''work'' \<noteq> []"
    by code_simp
  have f: "\<not> nextFault (storageFaults (hostWith [sampleGroup ''1'' ''Work''] []))"
    by (simp add: hostWith_def nextFault_def)
  have s: "store (hostWith [sampleGroup ''1'' ''Work''] []) STORAGE_KEY
       = Some (Doc \<lparr>groups = Some [sampleGroup ''1'' ''Work'']\<rparr>)"
    by (simp add: hostWith_def)
  have b: "sampleGroup ''1'' ''Work'' \<in> set [sampleGroup ''1'' ''Work'']"
    by simp
  have c: "toLowerCase (name (sampleGroup ''1'' ''Work'')) = toLowerCase (trim ''work'')"
    by code_simp
  have d: "name (sampleGroup ''1'' ''Work'') = ''Work''"
    by (simp add: sampleGroup_def)
  from handleSubmit_name_collision [OF a f s b c] a f s d show ?thesis
    by blast
qed

text \<open>
  Claim C2 at a failing input. The key joins the two names with a separator that may occur
  in them: the reference with application \<open>App\<close> and title \<open>:x\<close> and the window with
  application \<open>App:\<close> and title \<open>x\<close> have the same key and different names. The stored
  reference then hides that window from the windows offered for a new group. The key of
  \<^verbatim>\<open>minimizeAllExcept\<close>, joined with \<^verbatim>\<open>|||\<close>, collides in the same way.
\<close>

theorem getWindowKey_collision:
  "getWindowKey (ref ''App'' '':x'') = getWindowKey (ref ''App:'' ''x'')
   \<and> appName (ref ''App'' '':x'') \<noteq> appName (ref ''App:'' ''x'')
   \<and> windowTitle (ref ''App'' '':x'') \<noteq> windowTitle (ref ''App:'' ''x'')
   \<and> available [(sampleGroup ''1'' ''Work'')\<lparr>windows := [ref ''App'' '':x'']\<rparr>] [ref ''App:'' ''x''] = []
   \<and> keepSet [ref ''App'' ''|x''] = keepSet [ref ''App|'' ''x'']"
  by (simp add: getWindowKey_def ref_def keepSet_def available_def sampleGroup_def)

text \<open>
  Where no application name holds a colon, the key does identify the pair of names.
\<close>

lemma joined_eq:
  assumes "CHR '':'' \<notin> set a" "CHR '':'' \<notin> set b" "a @ ''::'' @ t = b @ ''::'' @ u"
  shows "a = b \<and> t = u"
  using assms
proof (induction a arbitrary: b)
  case Nil
  then show ?case by (cases b) auto
next
  case (Cons c a)
  then show ?case by (cases b) auto
qed

lemma getWindowKey_identifies:
  assumes "CHR '':'' \<notin> set (appName r)" "CHR '':'' \<notin> set (appName w)"
  shows "getWindowKey r = getWindowKey w
           \<longleftrightarrow> appName r = appName w \<and> windowTitle r = windowTitle w"
  using joined_eq [OF assms, of "windowTitle r" "windowTitle w"]
  by (auto simp: getWindowKey_def)

section \<open>The snapshot of open windows\<close>

text \<open>
  Claim C9 at a failing input. The script leaves out a window whose title is the empty
  text, and \<^verbatim>\<open>getOpenWindows\<close> trims the title afterwards: a visible window whose
  title is one space is captured with the empty title.
\<close>

theorem getOpenWindows_empty_title:
  "fst (getOpenWindows appleScriptDefault
          \<lparr>procs = [app ''App'' True [win '' '' False]], scriptFaults = []\<rparr>)
   = [\<lparr>appName = ''App'', windowTitle = [], windowId = ''App::'',
       bundleId = Some ''com.example.App''\<rparr>]"
  by code_simp


section \<open>Scripts and their calls\<close>

lemma readLiteral_Cons:
  "c \<noteq> CHR 0x5C \<Longrightarrow> c \<noteq> CHR 0x22 \<Longrightarrow> readLiteral (c # xs) = map_option ((#) c) (readLiteral xs)"
  by (cases xs) auto

text \<open>A text without backslash reaches the script as it is.\<close>

lemma readLiteral_escapeQuotes: "plain s \<Longrightarrow> readLiteral (escapeQuotes s) = Some s"
proof (induction s)
  case Nil
  then show ?case by simp
next
  case (Cons c cs)
  then have cs: "readLiteral (escapeQuotes cs) = Some cs" and c: "c \<noteq> CHR 0x5C"
    by (auto simp: plain_def)
  show ?case
  proof (cases "c = CHR 0x22")
    case True
    then show ?thesis using cs by (simp add: escapeChar_def)
  next
    case False
    then show ?thesis using cs c by (simp add: readLiteral_Cons)
  qed
qed

lemma readLiterals_escapeQuotes:
  "\<forall>k \<in> set ks. plain k \<Longrightarrow> readLiterals (map escapeQuotes ks) = Some ks"
  by (induction ks) (auto simp: readLiteral_escapeQuotes)

lemma plain_keepSet: "\<forall>w \<in> set ws. plainRef w \<Longrightarrow> \<forall>k \<in> set (keepSet ws). plain k"
  by (auto simp: keepSet_def plainRef_def plain_def)

lemma runAppleScript_fault:
  "nextFault (scriptFaults d) \<Longrightarrow>
     runAppleScript scr d = (Inl ScriptFault, d\<lparr>scriptFaults := tl (scriptFaults d)\<rparr>)"
  by (simp add: runAppleScript_def)

lemma runAppleScript_procs:
  "procs (snd (runAppleScript scr d)) = procs d
   \<or> procs (snd (runAppleScript scr d)) = snd (scr (procs d))"
  by (simp add: runAppleScript_def split: prod.splits)

lemma minimizeAllExcept_fault:
  "nextFault (scriptFaults d) \<Longrightarrow>
     minimizeAllExcept cmp ws d = (Inl ScriptFault, d\<lparr>scriptFaults := tl (scriptFaults d)\<rparr>)"
  by (simp add: minimizeAllExcept_def runAppleScript_fault)

lemma minimizeAllExcept_plain:
  "\<not> nextFault (scriptFaults d) \<Longrightarrow> \<forall>w \<in> set ws. plainRef w \<Longrightarrow>
     minimizeAllExcept cmp ws d
       = (Inr (), \<lparr>procs = map (minimizeOthers cmp (keepSet ws)) (procs d),
                   scriptFaults = tl (scriptFaults d)\<rparr>)"
  by (simp add: minimizeAllExcept_def runAppleScript_def minimizeAllExceptScript_def
      readLiterals_escapeQuotes plain_keepSet)

section \<open>The loop over the windows of the group\<close>


lemma restoreEach_notFound:
  "\<exists>nf. notFound (fst (restoreEach cmp ws acc d)) = notFound acc @ nf \<and> subseq nf ws"
proof (induction ws arbitrary: acc d)
  case Nil
  then show ?case by simp
next
  case (Cons w ws)
  obtain r d' where call:
    "runAppleScript (restoreScript cmp (escapeQuotes (appName w)) (escapeQuotes (windowTitle w))) d
       = (r, d')"
    by (cases "runAppleScript
                 (restoreScript cmp (escapeQuotes (appName w)) (escapeQuotes (windowTitle w))) d")
  show ?case
  proof (cases "\<exists>s. r = Inr s \<and> trim s = ''found''")
    case True
    then have "restoreEach cmp (w # ws) acc d
        = restoreEach cmp ws (acc\<lparr>shown := shown acc + 1\<rparr>) d'"
      using call by auto
    moreover obtain nf where
      "notFound (fst (restoreEach cmp ws (acc\<lparr>shown := shown acc + 1\<rparr>) d'))
         = notFound (acc\<lparr>shown := shown acc + 1\<rparr>) @ nf" "subseq nf ws"
      using Cons.IH by blast
    ultimately show ?thesis by (auto intro: subseq_Cons')
  next
    case False
    then have "restoreEach cmp (w # ws) acc d
        = restoreEach cmp ws (acc\<lparr>notFound := notFound acc @ [w]\<rparr>) d'"
      using call by (auto split: sum.splits)
    moreover obtain nf where
      "notFound (fst (restoreEach cmp ws (acc\<lparr>notFound := notFound acc @ [w]\<rparr>) d'))
         = notFound (acc\<lparr>notFound := notFound acc @ [w]\<rparr>) @ nf" "subseq nf ws"
      using Cons.IH by blast
    ultimately show ?thesis by (auto intro!: exI [of _ "w # _"])
  qed
qed

section \<open>Faults of a switch\<close>





section \<open>Lookups\<close>

lemma findIndex_Some:
  "findIndex P xs = Some i \<Longrightarrow> i < length xs \<and> P (xs ! i) \<and> (\<forall>j<i. \<not> P (xs ! j))"
proof (induction xs arbitrary: i)
  case Nil
  then show ?case by simp
next
  case (Cons x xs)
  show ?case
  proof (cases "P x")
    case True
    with Cons.prems show ?thesis by simp
  next
    case False
    with Cons.prems obtain k where k: "findIndex P xs = Some k" "i = Suc k"
      by auto
    from Cons.IH [OF k(1)] False k(2) show ?thesis
      by (auto simp: nth_Cons split: nat.splits)
  qed
qed

lemma findIndex_None: "findIndex P xs = None \<longleftrightarrow> (\<forall>x \<in> set xs. \<not> P x)"
  by (induction xs) auto

lemma findIndex_find: "map_option ((!) xs) (findIndex P xs) = find P xs"
  by (induction xs) (auto simp: option.map_comp comp_def)

lemma findIndex_cong:
  "list_all2 (\<lambda>x y. P x = Q y) xs ys \<Longrightarrow> findIndex P xs = findIndex Q ys"
  by (induction xs ys rule: list_all2_induct) auto

lemma find_without:
  "j < length ws \<Longrightarrow> \<not> P (ws ! j) \<Longrightarrow> find P (take j ws @ drop (Suc j) ws) = find P ws"
proof (induction ws arbitrary: j)
  case Nil
  then show ?case by simp
next
  case (Cons w ws)
  then show ?case by (cases j) auto
qed

section \<open>Raising a window\<close>

lemma unminimize_simps [simp]:
  "title (unminimize w) = title w"
  "minimized (unminimize w) \<noteq> Some True"
  "minimized w \<noteq> Some True \<Longrightarrow> unminimize w = w"
  by (auto simp: unminimize_def setMinimized_def split: option.splits)

lemma set_raiseWindow:
  "j < length ws \<Longrightarrow> set (raiseWindow j ws) \<subseteq> insert (unminimize (ws ! j)) (set ws)"
  by (auto simp: raiseWindow_def dest: in_set_takeD in_set_dropD)

lemma mset_raiseWindow:
  "j < length ws \<Longrightarrow> mset (raiseWindow j ws) = mset (ws[j := unminimize (ws ! j)])"
  by (simp add: raiseWindow_def upd_conv_take_nth_drop)

section \<open>What one script call changes\<close>

lemma length_setFrontmost [simp]: "length (setFrontmost i ps) = length ps"
  by (simp add: setFrontmost_def)

lemma nth_setFrontmost:
  "k < length ps \<Longrightarrow> i < length ps \<Longrightarrow> setFrontmost i ps ! k = (ps ! k)\<lparr>frontmost := (k = i)\<rparr>"
  by (auto simp: setFrontmost_def nth_list_update)

lemma restoreScript_cases:
  assumes "plain a" "plain t"
  obtains
    (noproc) "findProcess cmp a ps = None"
      "restoreScript cmp (escapeQuotes a) (escapeQuotes t) ps = (Inl ScriptError, ps)"
  | (nowin) i where "findProcess cmp a ps = Some i" "findWindow cmp t (pwindows (ps ! i)) = None"
      "restoreScript cmp (escapeQuotes a) (escapeQuotes t) ps = (Inr ''notfound'', setFrontmost i ps)"
  | (found) i j where "findProcess cmp a ps = Some i" "findWindow cmp t (pwindows (ps ! i)) = Some j"
      "restoreScript cmp (escapeQuotes a) (escapeQuotes t) ps
        = (Inr ''found'', (setFrontmost i ps)
             [i := (ps ! i)\<lparr>frontmost := True, pwindows := raiseWindow j (pwindows (ps ! i))\<rparr>])"
proof (cases "findProcess cmp a ps")
  case None
  then show ?thesis using assms noproc
    by (simp add: restoreScript_def readLiteral_escapeQuotes)
next
  case (Some i)
  then have i: "i < length ps"
    by (auto simp: findProcess_def dest: findIndex_Some)
  show ?thesis
  proof (cases "findWindow cmp t (pwindows (ps ! i))")
    case None
    then show ?thesis using assms Some i nowin [of i]
      by (simp add: restoreScript_def readLiteral_escapeQuotes Let_def nth_setFrontmost)
  next
    case (Some j)
    then show ?thesis using assms \<open>findProcess cmp a ps = Some i\<close> i found [of i j]
      by (simp add: restoreScript_def readLiteral_escapeQuotes Let_def nth_setFrontmost)
  qed
qed

lemma restoreScript_frame:
  assumes "plain a" "plain t"
    and "ps' = snd (restoreScript cmp (escapeQuotes a) (escapeQuotes t) ps)"
  shows "length ps' = length ps"
    and "k < length ps \<Longrightarrow> static (ps ! k) (ps' ! k) \<and> visible (ps' ! k) = visible (ps ! k)"
    and "k < length ps \<Longrightarrow> pwindows (ps' ! k) = pwindows (ps ! k)
           \<or> (findProcess cmp a ps = Some k
               \<and> (\<exists>j. findWindow cmp t (pwindows (ps ! k)) = Some j
                     \<and> pwindows (ps' ! k) = raiseWindow j (pwindows (ps ! k))))"
proof -
  show "length ps' = length ps"
    using assms by (cases rule: restoreScript_cases [of a t cmp ps]) auto
  show "static (ps ! k) (ps' ! k) \<and> visible (ps' ! k) = visible (ps ! k)" if "k < length ps"
    using assms(1,2)
  proof (cases rule: restoreScript_cases [of a t cmp ps])
    case noproc
    then show ?thesis using assms by (simp add: static_def)
  next
    case (nowin i)
    then have "i < length ps" by (auto simp: findProcess_def dest: findIndex_Some)
    then show ?thesis using nowin assms that by (simp add: static_def nth_setFrontmost)
  next
    case (found i j)
    then have "i < length ps" by (auto simp: findProcess_def dest: findIndex_Some)
    then show ?thesis using found assms that
      by (auto simp: static_def nth_setFrontmost nth_list_update)
  qed
  show "pwindows (ps' ! k) = pwindows (ps ! k)
           \<or> (findProcess cmp a ps = Some k
               \<and> (\<exists>j. findWindow cmp t (pwindows (ps ! k)) = Some j
                     \<and> pwindows (ps' ! k) = raiseWindow j (pwindows (ps ! k))))" if "k < length ps"
    using assms(1,2)
  proof (cases rule: restoreScript_cases [of a t cmp ps])
    case noproc
    then show ?thesis using assms by simp
  next
    case (nowin i)
    then have "i < length ps" by (auto simp: findProcess_def dest: findIndex_Some)
    then show ?thesis using nowin assms that by (simp add: nth_setFrontmost)
  next
    case (found i j)
    then have "i < length ps" by (auto simp: findProcess_def dest: findIndex_Some)
    then show ?thesis using found assms that
      by (auto simp: nth_setFrontmost nth_list_update)
  qed
qed

lemma setVisibleScript_cases:
  obtains (same) "snd (setVisibleScript cmp lit ps) = ps"
  | (shown) a i where "readLiteral lit = Some a" "findProcess cmp a ps = Some i" "i < length ps"
      "snd (setVisibleScript cmp lit ps) = ps[i := (ps ! i)\<lparr>visible := True\<rparr>]"
proof (cases "readLiteral lit")
  case None
  then show ?thesis using same by (simp add: setVisibleScript_def)
next
  case (Some a)
  show ?thesis
  proof (cases "findProcess cmp a ps")
    case None
    then show ?thesis using Some same by (simp add: setVisibleScript_def)
  next
    case (Some i)
    then have "i < length ps"
      by (auto simp: findProcess_def dest: findIndex_Some)
    then show ?thesis using Some \<open>readLiteral lit = Some a\<close> shown [of a i]
      by (simp add: setVisibleScript_def)
  qed
qed

lemma setVisibleScript_frame:
  assumes "ps' = snd (setVisibleScript cmp lit ps)"
  shows "length ps' = length ps"
    and "k < length ps \<Longrightarrow> static (ps ! k) (ps' ! k) \<and> (visible (ps ! k) \<longrightarrow> visible (ps' ! k))
           \<and> pwindows (ps' ! k) = pwindows (ps ! k)"
proof -
  show "length ps' = length ps"
    using assms by (cases rule: setVisibleScript_cases [of cmp lit ps]) auto
  show "static (ps ! k) (ps' ! k) \<and> (visible (ps ! k) \<longrightarrow> visible (ps' ! k))
           \<and> pwindows (ps' ! k) = pwindows (ps ! k)" if "k < length ps"
    using assms that
    by (cases rule: setVisibleScript_cases [of cmp lit ps])
      (auto simp: static_def nth_list_update)
qed

lemma restoreEach_invariant:
  assumes "I (procs d)"
    and "\<And>w ps. w \<in> set ws \<Longrightarrow> I ps \<Longrightarrow>
           I (snd (restoreScript cmp (escapeQuotes (appName w)) (escapeQuotes (windowTitle w)) ps))"
  shows "I (procs (snd (restoreEach cmp ws acc d)))"
  using assms
proof (induction ws arbitrary: acc d)
  case Nil
  then show ?case by simp
next
  case (Cons w ws)
  let ?scr = "restoreScript cmp (escapeQuotes (appName w)) (escapeQuotes (windowTitle w))"
  have "I (procs (snd (runAppleScript ?scr d)))"
    using runAppleScript_procs [of ?scr d] Cons.prems by auto
  then have "\<And>acc'. I (procs (snd (restoreEach cmp ws acc' (snd (runAppleScript ?scr d)))))"
    using Cons.IH Cons.prems(2) by simp
  then show ?case
    by (auto split: prod.splits sum.splits)
qed

lemma makeVisible_invariant:
  assumes "I (procs d)"
    and "\<And>a ps. a \<in> set as \<Longrightarrow> I ps \<Longrightarrow> I (snd (setVisibleScript cmp (escapeQuotes a) ps))"
  shows "I (procs (makeVisible cmp as d))"
  using assms
proof (induction as arbitrary: d)
  case Nil
  then show ?case by simp
next
  case (Cons a as)
  let ?scr = "setVisibleScript cmp (escapeQuotes a)"
  have "I (procs (snd (runAppleScript ?scr d)))"
    using runAppleScript_procs [of ?scr d] Cons.prems by auto
  then show ?case
    using Cons.IH Cons.prems(2) by simp
qed

lemma minimizeWindow_not_False: "minimized (minimizeWindow w) \<noteq> Some False"
  by (auto simp: minimizeWindow_def isMinimized_def setMinimized_def split: option.splits)

lemma minimizeWindow_title [simp]: "title (minimizeWindow w) = title w"
  by (auto simp: minimizeWindow_def isMinimized_def setMinimized_def split: option.splits)

lemma shouldKeep_title:
  "title w' = title w \<Longrightarrow> shouldKeep cmp keep n w' = shouldKeep cmp keep n w"
  by (simp add: shouldKeep_def winKey_def)

lemma minimizeOthers_static [simp]:
  "pname (minimizeOthers cmp keep p) = pname p"
  "bundleIdentifier (minimizeOthers cmp keep p) = bundleIdentifier p"
  "backgroundOnly (minimizeOthers cmp keep p) = backgroundOnly p"
  "visible (minimizeOthers cmp keep p) = visible p"
  "frontmost (minimizeOthers cmp keep p) = frontmost p"
  by (simp_all add: minimizeOthers_def)

lemma minimizeOthers_othersMinimized:
  "inScope cmp p \<Longrightarrow> othersMinimized cmp keep (minimizeOthers cmp keep p)"
  by (auto simp: inScope_def othersMinimized_def minimizeOthers_def minimizeWindow_not_False
      shouldKeep_title [of "minimizeWindow _"])

lemma othersMinimized_restoreScript:
  assumes agree: "agreeOnKeys cmp" and plain: "plain a" "plain t"
    and keep: "a @ ''|||'' @ t \<in> set keep"
    and ps': "ps' = snd (restoreScript cmp (escapeQuotes a) (escapeQuotes t) ps)"
    and k: "k < length ps" and om: "othersMinimized cmp keep (ps ! k)"
  shows "othersMinimized cmp keep (ps' ! k)"
proof -
  note frame = restoreScript_frame [OF plain ps']
  have name: "pname (ps' ! k) = pname (ps ! k)"
    using frame(2) [OF k] by (simp add: static_def)
  from frame(3) [OF k] show ?thesis
  proof
    assume "pwindows (ps' ! k) = pwindows (ps ! k)"
    then show ?thesis using om name by (simp add: othersMinimized_def)
  next
    assume "findProcess cmp a ps = Some k
       \<and> (\<exists>j. findWindow cmp t (pwindows (ps ! k)) = Some j
              \<and> pwindows (ps' ! k) = raiseWindow j (pwindows (ps ! k)))"
    then obtain j where fp: "findProcess cmp a ps = Some k"
      and fw: "findWindow cmp t (pwindows (ps ! k)) = Some j"
      and raised: "pwindows (ps' ! k) = raiseWindow j (pwindows (ps ! k))"
      by blast
    from fp have an: "serverEq cmp a (pname (ps ! k))"
      by (auto simp: findProcess_def dest: findIndex_Some)
    from fw have j: "j < length (pwindows (ps ! k))"
      and tn: "serverEq cmp t (title (pwindows (ps ! k) ! j))"
      by (auto simp: findWindow_def dest: findIndex_Some)
    have "shouldKeep cmp keep (pname (ps ! k)) (unminimize (pwindows (ps ! k) ! j))"
      using agree an tn keep unfolding agreeOnKeys_def shouldKeep_def winKey_def
      by (metis unminimize_simps(1))
    then show ?thesis
      using om name raised set_raiseWindow [OF j]
      by (auto simp: othersMinimized_def)
  qed
qed

lemma plainRef_key: "r \<in> set ws \<Longrightarrow> appName r @ ''|||'' @ windowTitle r \<in> set (keepSet ws)"
  by (auto simp: keepSet_def)

text \<open>The loops keep what the first step minimized.\<close>

lemma kept_by_loops_refl: "kept_by_loops cmp keep ps ps"
  by (simp add: kept_by_loops_def static_def)

lemma kept_by_loops_restore:
  assumes "agreeOnKeys cmp" "plainRef r" "r \<in> set ws" "kept_by_loops cmp (keepSet ws) ps0 ps"
  shows "kept_by_loops cmp (keepSet ws) ps0
           (snd (restoreScript cmp (escapeQuotes (appName r)) (escapeQuotes (windowTitle r)) ps))"
proof -
  define ps' where
    "ps' = snd (restoreScript cmp (escapeQuotes (appName r)) (escapeQuotes (windowTitle r)) ps)"
  have plain: "plain (appName r)" "plain (windowTitle r)"
    using assms(2) by (simp_all add: plainRef_def)
  note frame = restoreScript_frame [OF plain ps'_def]
  have om: "othersMinimized cmp (keepSet ws) (ps' ! k)"
    if "k < length ps" "othersMinimized cmp (keepSet ws) (ps ! k)" for k
    using othersMinimized_restoreScript [OF assms(1) plain plainRef_key [OF assms(3)] ps'_def that] .
  have "kept_by_loops cmp (keepSet ws) ps0 ps'"
    using assms(4) frame(1) frame(2) om
    unfolding kept_by_loops_def static_def by auto
  then show ?thesis by (simp add: ps'_def)
qed

lemma kept_by_loops_setVisible:
  assumes "kept_by_loops cmp keep ps0 ps"
  shows "kept_by_loops cmp keep ps0 (snd (setVisibleScript cmp lit ps))"
proof -
  define ps' where "ps' = snd (setVisibleScript cmp lit ps)"
  note frame = setVisibleScript_frame [OF ps'_def]
  have "othersMinimized cmp keep (ps' ! k)"
    if "k < length ps" "othersMinimized cmp keep (ps ! k)" for k
    using frame(2) [OF that(1)] that(2) by (simp add: othersMinimized_def static_def)
  then have "kept_by_loops cmp keep ps0 ps'"
    using assms frame unfolding kept_by_loops_def static_def by auto
  then show ?thesis by (simp add: ps'_def)
qed

lemma restoreWindows_kept:
  assumes "agreeOnKeys cmp" "\<forall>r \<in> set ws. plainRef r"
  shows "kept_by_loops cmp (keepSet ws) (procs d) (procs (snd (restoreWindows cmp ws d)))"
proof -
  let ?I = "kept_by_loops cmp (keepSet ws) (procs d)"
  have "?I (procs (makeVisible cmp (uniqueInOrder (map appName ws)) d))"
    by (rule makeVisible_invariant) (auto intro: kept_by_loops_refl kept_by_loops_setVisible)
  then show ?thesis
    unfolding restoreWindows_def Let_def
    by (rule restoreEach_invariant) (use assms in \<open>auto intro: kept_by_loops_restore\<close>)
qed

lemma find_findIndex:
  "find P xs = (case findIndex P xs of None \<Rightarrow> None | Some j \<Rightarrow> Some (xs ! j))"
  by (simp add: findIndex_find [symmetric] split: option.splits)

lemma restored_find:
  "restored cmp r ps \<longleftrightarrow>
     (\<exists>i w. findProcess cmp (appName r) ps = Some i
        \<and> find (\<lambda>w. serverEq cmp (windowTitle r) (title w)) (pwindows (ps ! i)) = Some w
        \<and> minimized w \<noteq> Some True)"
  by (auto simp: restored_def target_def findWindow_def find_findIndex split: option.splits)

lemma findProcess_frame:
  assumes "length ps' = length ps" "\<And>k. k < length ps \<Longrightarrow> pname (ps' ! k) = pname (ps ! k)"
  shows "findProcess cmp a ps' = findProcess cmp a ps"
  unfolding findProcess_def
  by (rule findIndex_cong) (use assms in \<open>simp add: list_all2_conv_all_nth\<close>)

lemma find_raiseWindow:
  assumes "j < length ws" "\<And>w w'. title w' = title w \<Longrightarrow> P w' = P w"
  shows "find P (raiseWindow j ws) = (if P (ws ! j) then Some (unminimize (ws ! j)) else find P ws)"
  using assms(1) assms(2) [of "ws ! j" "unminimize (ws ! j)"]
  by (simp add: raiseWindow_def find_without)

lemma restored_preserved:
  assumes plain: "plain a" "plain t" and r: "restored cmp r ps"
  shows "restored cmp r (snd (restoreScript cmp (escapeQuotes a) (escapeQuotes t) ps))"
proof -
  define ps' where "ps' = snd (restoreScript cmp (escapeQuotes a) (escapeQuotes t) ps)"
  let ?P = "\<lambda>w. serverEq cmp (windowTitle r) (title w)"
  note frame = restoreScript_frame [OF plain ps'_def]
  from r obtain i w where i: "findProcess cmp (appName r) ps = Some i"
    and w: "find ?P (pwindows (ps ! i)) = Some w" and m: "minimized w \<noteq> Some True"
    unfolding restored_find by blast
  have il: "i < length ps"
    using i by (auto simp: findProcess_def dest: findIndex_Some)
  have i': "findProcess cmp (appName r) ps' = Some i"
    using findProcess_frame [of ps' ps cmp "appName r"] frame(1) frame(2) i
    by (simp add: static_def)
  have "\<exists>w'. find ?P (pwindows (ps' ! i)) = Some w' \<and> minimized w' \<noteq> Some True"
    using frame(3) [OF il]
  proof
    assume "pwindows (ps' ! i) = pwindows (ps ! i)"
    then show ?thesis using w m by simp
  next
    assume "findProcess cmp a ps = Some i
       \<and> (\<exists>j. findWindow cmp t (pwindows (ps ! i)) = Some j
              \<and> pwindows (ps' ! i) = raiseWindow j (pwindows (ps ! i)))"
    then obtain j where fw: "findWindow cmp t (pwindows (ps ! i)) = Some j"
      and raised: "pwindows (ps' ! i) = raiseWindow j (pwindows (ps ! i))"
      by blast
    from fw have j: "j < length (pwindows (ps ! i))"
      by (auto simp: findWindow_def dest: findIndex_Some)
    have "find ?P (raiseWindow j (pwindows (ps ! i)))
        = (if ?P (pwindows (ps ! i) ! j) then Some (unminimize (pwindows (ps ! i) ! j))
           else find ?P (pwindows (ps ! i)))"
      by (rule find_raiseWindow [OF j]) simp
    then show ?thesis using raised w m by auto
  qed
  then have "restored cmp r ps'"
    unfolding restored_find using i' by blast
  then show ?thesis by (simp add: ps'_def)
qed

lemma restored_established:
  assumes plain: "plain (appName r)" "plain (windowTitle r)"
    and found: "fst (restoreScript cmp (escapeQuotes (appName r)) (escapeQuotes (windowTitle r)) ps)
                  = Inr ''found''"
  shows "\<exists>i. findProcess cmp (appName r) ps = Some i
           \<and> target cmp r (snd (restoreScript cmp (escapeQuotes (appName r))
                                  (escapeQuotes (windowTitle r)) ps)) = Some (i, 0)
           \<and> restored cmp r (snd (restoreScript cmp (escapeQuotes (appName r))
                                    (escapeQuotes (windowTitle r)) ps))"
  using plain
proof (cases rule: restoreScript_cases [of "appName r" "windowTitle r" cmp ps])
  case noproc
  then show ?thesis using found by simp
next
  case (nowin i)
  then show ?thesis using found by simp
next
  case (found i j)
  define ps' where
    "ps' = snd (restoreScript cmp (escapeQuotes (appName r)) (escapeQuotes (windowTitle r)) ps)"
  note frame = restoreScript_frame [OF plain ps'_def]
  have il: "i < length ps"
    using found(1) by (auto simp: findProcess_def dest: findIndex_Some)
  from found(2) have j: "j < length (pwindows (ps ! i))"
    and tn: "serverEq cmp (windowTitle r) (title (pwindows (ps ! i) ! j))"
    by (auto simp: findWindow_def dest: findIndex_Some)
  have i': "findProcess cmp (appName r) ps' = Some i"
    using findProcess_frame [of ps' ps cmp "appName r"] frame(1) frame(2) found(1)
    by (simp add: static_def)
  have win: "pwindows (ps' ! i) = raiseWindow j (pwindows (ps ! i))"
    using found(3) il by (simp add: ps'_def)
  have "findWindow cmp (windowTitle r) (pwindows (ps' ! i)) = Some 0"
    using tn by (simp add: win raiseWindow_def findWindow_def)
  then have "target cmp r ps' = Some (i, 0)"
    using i' by (simp add: target_def)
  moreover have "restored cmp r ps'"
    using \<open>target cmp r ps' = Some (i, 0)\<close> by (simp add: restored_def win raiseWindow_def)
  ultimately show ?thesis
    using found(1) by (simp add: ps'_def)
qed

lemma trim_found [simp]: "trim ''found'' = ''found''" "trim ''notfound'' \<noteq> ''found''"
  by code_simp+

lemma restoreEach_Cons_cases:
  assumes "plainRef w"
  obtains
    (found) d1 where
      "fst (restoreScript cmp (escapeQuotes (appName w)) (escapeQuotes (windowTitle w)) (procs d))
         = Inr ''found''"
      "procs d1 = snd (restoreScript cmp (escapeQuotes (appName w)) (escapeQuotes (windowTitle w))
                         (procs d))"
      "scriptFaults d1 = tl (scriptFaults d)"
      "restoreEach cmp (w # ws) acc d = restoreEach cmp ws (acc\<lparr>shown := shown acc + 1\<rparr>) d1"
  | (missed) d1 where
      "procs d1 = procs d \<or>
       procs d1 = snd (restoreScript cmp (escapeQuotes (appName w)) (escapeQuotes (windowTitle w))
                         (procs d))"
      "scriptFaults d1 = tl (scriptFaults d)"
      "restoreEach cmp (w # ws) acc d
         = restoreEach cmp ws (acc\<lparr>notFound := notFound acc @ [w]\<rparr>) d1"
proof -
  let ?scr = "restoreScript cmp (escapeQuotes (appName w)) (escapeQuotes (windowTitle w))"
  have plain: "plain (appName w)" "plain (windowTitle w)"
    using assms by (simp_all add: plainRef_def)
  show ?thesis
  proof (cases "nextFault (scriptFaults d)")
    case True
    then show ?thesis
      using missed [of "d\<lparr>scriptFaults := tl (scriptFaults d)\<rparr>"]
      by (simp add: runAppleScript_fault)
  next
    case False
    from plain show ?thesis
    proof (cases rule: restoreScript_cases [of "appName w" "windowTitle w" cmp "procs d"])
      case noproc
      then show ?thesis
        using False missed [of "\<lparr>procs = procs d, scriptFaults = tl (scriptFaults d)\<rparr>"]
        by (simp add: runAppleScript_def)
    next
      case (nowin i)
      then show ?thesis
        using False missed [of "\<lparr>procs = snd (?scr (procs d)), scriptFaults = tl (scriptFaults d)\<rparr>"]
        by (simp add: runAppleScript_def)
    next
      case (found i j)
      then show ?thesis
        using False
          that(1) [of "\<lparr>procs = snd (?scr (procs d)), scriptFaults = tl (scriptFaults d)\<rparr>"]
        by (simp add: runAppleScript_def)
    qed
  qed
qed

lemma restoreEach_restored:
  assumes "\<forall>r \<in> set ws. plainRef r"
    and "\<forall>r \<in> S. r \<notin> set (notFound acc) \<longrightarrow> restored cmp r (procs d)"
  shows "\<forall>r \<in> S \<union> set ws. r \<notin> set (notFound (fst (restoreEach cmp ws acc d)))
           \<longrightarrow> restored cmp r (procs (snd (restoreEach cmp ws acc d)))"
  using assms
proof (induction ws arbitrary: S acc d)
  case Nil
  then show ?case by simp
next
  case (Cons w ws)
  have w: "plainRef w" and ws: "\<forall>r \<in> set ws. plainRef r"
    using Cons.prems(1) by simp_all
  have plain: "plain (appName w)" "plain (windowTitle w)"
    using w by (simp_all add: plainRef_def)
  let ?ps' = "snd (restoreScript cmp (escapeQuotes (appName w)) (escapeQuotes (windowTitle w)) (procs d))"
  have pres: "restored cmp r ?ps'" if "restored cmp r (procs d)" for r
    using that by (rule restored_preserved [OF plain])
  from w show ?case
  proof (cases rule: restoreEach_Cons_cases [of w cmp d ws acc])
    case (found d1)
    have "restored cmp w ?ps'"
      using restored_established [OF plain found(1)] by blast
    then have "\<forall>r \<in> insert w S. r \<notin> set (notFound (acc\<lparr>shown := shown acc + 1\<rparr>))
            \<longrightarrow> restored cmp r (procs d1)"
      using Cons.prems(2) pres by (simp add: found(2))
    from Cons.IH [OF ws this] show ?thesis
      unfolding found(4) by simp
  next
    case (missed d1)
    have "restored cmp r (procs d1)" if "restored cmp r (procs d)" for r
      using missed(1) pres that by auto
    then have "\<forall>r \<in> insert w S. r \<notin> set (notFound (acc\<lparr>notFound := notFound acc @ [w]\<rparr>))
            \<longrightarrow> restored cmp r (procs d1)"
      using Cons.prems(2) by simp
    from Cons.IH [OF ws this] show ?thesis
      unfolding missed(3) by simp
  qed
qed

lemma restoreEach_append:
  "restoreEach cmp (xs @ ys) acc d
     = restoreEach cmp ys (fst (restoreEach cmp xs acc d)) (snd (restoreEach cmp xs acc d))"
  by (induction xs arbitrary: acc d) (auto split: prod.splits sum.splits)

lemma findIndex_map: "findIndex P (map f xs) = findIndex (\<lambda>x. P (f x)) xs"
  by (induction xs) auto

lemma findProcess_names:
  "map pname ps' = map pname ps \<Longrightarrow> findProcess cmp a ps' = findProcess cmp a ps"
  using findIndex_map [of "serverEq cmp a" pname ps] findIndex_map [of "serverEq cmp a" pname ps']
  by (simp add: findProcess_def)

lemma restoreScript_names:
  assumes "plain a" "plain t"
  shows "map pname (snd (restoreScript cmp (escapeQuotes a) (escapeQuotes t) ps)) = map pname ps"
proof -
  define ps' where "ps' = snd (restoreScript cmp (escapeQuotes a) (escapeQuotes t) ps)"
  note frame = restoreScript_frame [OF assms ps'_def]
  have "map pname ps' = map pname ps"
    using frame(1) frame(2) by (auto intro!: nth_equalityI simp: static_def)
  then show ?thesis by (simp add: ps'_def)
qed

lemma setVisibleScript_names: "map pname (snd (setVisibleScript cmp lit ps)) = map pname ps"
proof -
  define ps' where "ps' = snd (setVisibleScript cmp lit ps)"
  note frame = setVisibleScript_frame [OF ps'_def]
  have "map pname ps' = map pname ps"
    using frame(1) frame(2) by (auto intro!: nth_equalityI simp: static_def)
  then show ?thesis by (simp add: ps'_def)
qed

lemma restoreEach_names:
  assumes "\<forall>r \<in> set ws. plainRef r"
  shows "map pname (procs (snd (restoreEach cmp ws acc d))) = map pname (procs d)"
  by (rule restoreEach_invariant [where I = "\<lambda>ps. map pname ps = map pname (procs d)"])
    (use assms in \<open>auto simp: restoreScript_names plainRef_def\<close>)

lemma makeVisible_names: "map pname (procs (makeVisible cmp as d)) = map pname (procs d)"
  by (rule makeVisible_invariant [where I = "\<lambda>ps. map pname ps = map pname (procs d)"])
    (auto simp: setVisibleScript_names)

lemma target_front_preserved:
  assumes plain: "plain a" "plain t" and tg: "target cmp r ps = Some (i, 0)"
    and other: "findProcess cmp a ps \<noteq> Some i"
  shows "target cmp r (snd (restoreScript cmp (escapeQuotes a) (escapeQuotes t) ps)) = Some (i, 0)"
proof -
  define ps' where "ps' = snd (restoreScript cmp (escapeQuotes a) (escapeQuotes t) ps)"
  note frame = restoreScript_frame [OF plain ps'_def]
  from tg have i: "findProcess cmp (appName r) ps = Some i"
    and fw: "findWindow cmp (windowTitle r) (pwindows (ps ! i)) = Some 0"
    by (auto simp: target_def split: option.splits)
  have il: "i < length ps"
    using i by (auto simp: findProcess_def dest: findIndex_Some)
  have "findProcess cmp (appName r) ps' = Some i"
    using findProcess_names [OF restoreScript_names [OF plain]] i by (simp add: ps'_def)
  moreover have "pwindows (ps' ! i) = pwindows (ps ! i)"
    using frame(3) [OF il] other by auto
  ultimately have "target cmp r ps' = Some (i, 0)"
    using fw by (simp add: target_def)
  then show ?thesis by (simp add: ps'_def)
qed

lemma restoreEach_front:
  assumes plain: "\<forall>r' \<in> set ws. plainRef r'"
    and tg: "target cmp r (procs d) = Some (i, 0)"
    and other: "\<forall>r' \<in> set ws. findProcess cmp (appName r') (procs d) \<noteq> Some i"
  shows "target cmp r (procs (snd (restoreEach cmp ws acc d))) = Some (i, 0)"
proof -
  let ?I = "\<lambda>ps. map pname ps = map pname (procs d) \<and> target cmp r ps = Some (i, 0)"
  have "?I (procs (snd (restoreEach cmp ws acc d)))"
  proof (rule restoreEach_invariant [where I = ?I])
    show "?I (procs d)" using tg by simp
  next
    fix w ps
    assume w: "w \<in> set ws" and I: "?I ps"
    have p: "plain (appName w)" "plain (windowTitle w)"
      using plain w by (auto simp: plainRef_def)
    have "findProcess cmp (appName w) ps \<noteq> Some i"
      using other w I findProcess_names [of ps "procs d"] by auto
    then have "target cmp r (snd (restoreScript cmp (escapeQuotes (appName w))
                                  (escapeQuotes (windowTitle w)) ps)) = Some (i, 0)"
      using I target_front_preserved [OF p] by blast
    then show "?I (snd (restoreScript cmp (escapeQuotes (appName w)) (escapeQuotes (windowTitle w)) ps))"
      using I restoreScript_names [OF p] by simp
  qed
  then show ?thesis by simp
qed

lemma switchTo_Inr:
  assumes "\<forall>r \<in> set ws. plainRef r" "switchTo cmp ws d = (Inr res, d')"
  shows "restoreWindows cmp ws
           \<lparr>procs = map (minimizeOthers cmp (keepSet ws)) (procs d),
            scriptFaults = tl (scriptFaults d)\<rparr> = (res, d')"
proof (cases "nextFault (scriptFaults d)")
  case True
  then show ?thesis using assms(2) by (simp add: switchTo_def minimizeAllExcept_fault)
next
  case False
  then show ?thesis using assms
    by (simp add: switchTo_def minimizeAllExcept_plain split: prod.splits)
qed

lemma restoreWindows_raised:
  assumes plain: "\<forall>r \<in> set (ws1 @ r # ws2). plainRef r"
    and rw: "restoreWindows cmp (ws1 @ r # ws2) d = (res, d')"
    and nf: "r \<notin> set (notFound res)"
    and other: "\<forall>r' \<in> set ws2. findProcess cmp (appName r') (procs d)
                  \<noteq> findProcess cmp (appName r) (procs d)"
  shows "raised cmp r (procs d')"
proof -
  define dv where "dv = makeVisible cmp (uniqueInOrder (map appName (ws1 @ r # ws2))) d"
  define acc1 where "acc1 = fst (restoreEach cmp ws1 \<lparr>shown = 0, notFound = []\<rparr> dv)"
  define da where "da = snd (restoreEach cmp ws1 \<lparr>shown = 0, notFound = []\<rparr> dv)"
  have rest: "restoreEach cmp (r # ws2) acc1 da = (res, d')"
    using rw by (simp add: restoreWindows_def Let_def restoreEach_append dv_def acc1_def da_def)
  have names: "map pname (procs da) = map pname (procs d)"
    using restoreEach_names [of ws1 cmp "\<lparr>shown = 0, notFound = []\<rparr>" dv] plain
      makeVisible_names [of cmp _ d]
    by (simp add: da_def dv_def)
  have pr: "plainRef r" and p2: "\<forall>r' \<in> set ws2. plainRef r'"
    using plain by simp_all
  have plain_r: "plain (appName r)" "plain (windowTitle r)"
    using pr by (simp_all add: plainRef_def)
  from pr show ?thesis
  proof (cases rule: restoreEach_Cons_cases [of r cmp da ws2 acc1])
    case (missed d1)
    obtain nf' where "notFound (fst (restoreEach cmp ws2 (acc1\<lparr>notFound := notFound acc1 @ [r]\<rparr>) d1))
        = notFound (acc1\<lparr>notFound := notFound acc1 @ [r]\<rparr>) @ nf'"
      using restoreEach_notFound by blast
    moreover have "restoreEach cmp ws2 (acc1\<lparr>notFound := notFound acc1 @ [r]\<rparr>) d1 = (res, d')"
      using rest unfolding missed(3) .
    ultimately have "r \<in> set (notFound res)"
      by simp
    then show ?thesis using nf by simp
  next
    case (found d1)
    let ?ps' = "snd (restoreScript cmp (escapeQuotes (appName r)) (escapeQuotes (windowTitle r))
                       (procs da))"
    from restored_established [OF plain_r found(1)]
    obtain i where i: "findProcess cmp (appName r) (procs da) = Some i"
      and tg: "target cmp r (procs d1) = Some (i, 0)"
      using found(2) by auto
    have names1: "map pname (procs d1) = map pname (procs d)"
      using names restoreScript_names [OF plain_r, of cmp "procs da"] found(2) by simp
    have "\<forall>r' \<in> set ws2. findProcess cmp (appName r') (procs d1) \<noteq> Some i"
      using other i findProcess_names [OF names1] findProcess_names [OF names] by simp
    moreover have "restoreEach cmp ws2 (acc1\<lparr>shown := shown acc1 + 1\<rparr>) d1 = (res, d')"
      using rest unfolding found(4) .
    ultimately have "target cmp r (procs d') = Some (i, 0)"
      using restoreEach_front [OF p2 tg, of "acc1\<lparr>shown := shown acc1 + 1\<rparr>"] by simp
    then show ?thesis by (simp add: raised_def)
  qed
qed

section \<open>The outcome of a switch\<close>

lemma agreeOnKeys_appleScriptDefault: "agreeOnKeys appleScriptDefault"
  by (simp add: agreeOnKeys_def appleScriptDefault_def ignoringCase_def)

lemma agreeOnKeys_consideringCase: "agreeOnKeys consideringCase"
  by (simp add: agreeOnKeys_def consideringCase_def)

text \<open>
  Claim C1, as it stands, fails. The group holds two windows of Cursor; the tool itself
  has a window, and Mail is hidden with a window that is not minimized. The switch returns
  a result with both windows shown. After it the window of the tool and the window of Mail,
  whose keys are not in the group, are not minimized; and \<open>main.ts\<close>, which is in the
  group and was found, is behind \<open>notes.md\<close>, the window raised after it.
\<close>

theorem switchTo_outcome_counterexample:
  "fst (switchTo appleScriptDefault twoOfOneApp mixedDesktop) = Inr \<lparr>shown = 2, notFound = []\<rparr>
   \<and> map (\<lambda>p. (pname p, map (\<lambda>w. (title w, minimized w)) (pwindows p)))
        (procs (snd (switchTo appleScriptDefault twoOfOneApp mixedDesktop)))
     = [(''Cursor'', [(''notes.md'', Some False), (''main.ts'', Some False)]),
        (''Raycast'', [(''Raycast Settings'', Some False)]),
        (''Mail'', [(''Inbox'', Some False)])]
   \<and> \<not> raised appleScriptDefault (ref ''Cursor'' ''main.ts'')
         (procs (snd (switchTo appleScriptDefault twoOfOneApp mixedDesktop)))"
  by code_simp

text \<open>
  Claim C1, amended. Let the names and titles of the group be without backslash and the
  two text comparisons agree on keys, and let the switch return a result (the
  exclusionary minimize did not fault). Then, process by process in the order of the
  desktop before the switch:
  \<^item> in every process that was visible, not background only and not the tool itself,
    every window whose key the script takes for none of the keys of the group is
    minimized, or has no \<^verbatim>\<open>AXMinimized\<close> attribute;
  \<^item> for every reference of the group that is not in \<open>notFound\<close>, the window that
    the script picks for it exists and is not minimized;
  \<^item> and that window is the frontmost window of its process if no later reference of
    the group names the same process.
\<close>

theorem switchTo_outcome:
  assumes agree: "agreeOnKeys cmp" and plain: "\<forall>r \<in> set ws. plainRef r"
    and sw: "switchTo cmp ws d = (Inr res, d')"
  shows "list_all2 (\<lambda>p p'. pname p' = pname p
            \<and> (inScope cmp p \<longrightarrow> othersMinimized cmp (keepSet ws) p')) (procs d) (procs d')
    \<and> (\<forall>r \<in> set ws. r \<notin> set (notFound res) \<longrightarrow> restored cmp r (procs d'))
    \<and> (ws = ws1 @ r # ws2 \<and> r \<notin> set (notFound res)
        \<and> (\<forall>r' \<in> set ws2. findProcess cmp (appName r') (procs d)
                               \<noteq> findProcess cmp (appName r) (procs d))
        \<longrightarrow> raised cmp r (procs d'))"
proof -
  define d1 where "d1 = \<lparr>procs = map (minimizeOthers cmp (keepSet ws)) (procs d),
                          scriptFaults = tl (scriptFaults d)\<rparr>"
  have rw: "restoreWindows cmp ws d1 = (res, d')"
    using switchTo_Inr [OF plain sw] by (simp add: d1_def)
  have kept: "kept_by_loops cmp (keepSet ws) (procs d1) (procs d')"
    using restoreWindows_kept [OF agree plain, of d1] rw by simp
  have a: "list_all2 (\<lambda>p p'. pname p' = pname p
            \<and> (inScope cmp p \<longrightarrow> othersMinimized cmp (keepSet ws) p')) (procs d) (procs d')"
    using kept minimizeOthers_othersMinimized [of cmp _ "keepSet ws"]
    unfolding kept_by_loops_def list_all2_conv_all_nth static_def
    by (auto simp: d1_def)
  have b: "\<forall>r \<in> set ws. r \<notin> set (notFound res) \<longrightarrow> restored cmp r (procs d')"
    using restoreEach_restored [OF plain, of "{}" "\<lparr>shown = 0, notFound = []\<rparr>" cmp
        "makeVisible cmp (uniqueInOrder (map appName ws)) d1"] rw
    by (simp add: restoreWindows_def Let_def)
  have c: "raised cmp r (procs d')"
    if "ws = ws1 @ r # ws2" "r \<notin> set (notFound res)"
      "\<forall>r' \<in> set ws2. findProcess cmp (appName r') (procs d)
                               \<noteq> findProcess cmp (appName r) (procs d)"
  proof -
    have names: "map pname (procs d1) = map pname (procs d)"
      by (simp add: d1_def comp_def)
    show ?thesis
      using restoreWindows_raised [of ws1 r ws2 cmp d1 res d'] plain rw that
        findProcess_names [OF names]
      by simp
  qed
  from a b c show ?thesis by blast
qed

theorem switchTo_outcome_witness:
  "agreeOnKeys appleScriptDefault
   \<and> plainRef (ref ''Cursor'' ''main.ts'') \<and> plainRef (ref ''Terminal'' ''bash'')
   \<and> switchTo appleScriptDefault devGroup devDesktop = (Inr \<lparr>shown = 2, notFound = []\<rparr>, devSwitched)
   \<and> list_all2 (\<lambda>p p'. pname p' = pname p
         \<and> (inScope appleScriptDefault p
              \<longrightarrow> othersMinimized appleScriptDefault (keepSet devGroup) p'))
        (procs devDesktop) (procs devSwitched)
   \<and> restored appleScriptDefault (ref ''Cursor'' ''main.ts'') (procs devSwitched)
   \<and> restored appleScriptDefault (ref ''Terminal'' ''bash'') (procs devSwitched)
   \<and> raised appleScriptDefault (ref ''Terminal'' ''bash'') (procs devSwitched)"
proof -
  have p: "\<forall>r \<in> set devGroup. plainRef r"
    by code_simp
  have s: "switchTo appleScriptDefault devGroup devDesktop
             = (Inr \<lparr>shown = 2, notFound = []\<rparr>, devSwitched)"
    by code_simp
  from switchTo_outcome [OF agreeOnKeys_appleScriptDefault p s,
      of "[ref ''Cursor'' ''main.ts'']" "ref ''Terminal'' ''bash''" "[]"]
  show ?thesis
    using agreeOnKeys_appleScriptDefault p s by (simp add: devGroup_def)
qed

section \<open>Names that the lookups see\<close>

lemma shape_names: "shape ps' = shape ps \<Longrightarrow> map pname ps' = map pname ps"
proof -
  assume "shape ps' = shape ps"
  then have "map fst (shape ps') = map fst (shape ps)" by simp
  then show ?thesis by (simp add: shape_def comp_def)
qed

lemma shape_titles:
  "shape ps' = shape ps \<Longrightarrow> k < length ps \<Longrightarrow>
     title ` set (pwindows (ps' ! k)) = title ` set (pwindows (ps ! k))"
proof -
  assume s: "shape ps' = shape ps" and k: "k < length ps"
  then have "length ps' = length ps"
    by (metis length_map shape_def)
  with k s have "shape ps' ! k = shape ps ! k" by simp
  then show ?thesis using k \<open>length ps' = length ps\<close> by (simp add: shape_def)
qed

lemma findWindow_None_titles:
  "findWindow cmp t ws = None \<longleftrightarrow> (\<forall>x \<in> title ` set ws. \<not> serverEq cmp t x)"
  by (auto simp: findWindow_def findIndex_None)

lemma findable_shape:
  assumes "shape ps' = shape ps"
  shows "findable cmp r ps' = findable cmp r ps"
proof -
  have fp: "findProcess cmp (appName r) ps' = findProcess cmp (appName r) ps"
    using findProcess_names [OF shape_names [OF assms]] .
  show ?thesis
  proof (cases "findProcess cmp (appName r) ps")
    case None
    then show ?thesis using fp by (simp add: findable_def target_def)
  next
    case (Some i)
    then have "i < length ps"
      by (auto simp: findProcess_def dest: findIndex_Some)
    from shape_titles [OF assms this]
    have "findWindow cmp (windowTitle r) (pwindows (ps' ! i)) = None
      \<longleftrightarrow> findWindow cmp (windowTitle r) (pwindows (ps ! i)) = None"
      by (simp add: findWindow_None_titles)
    then show ?thesis using fp Some
      by (auto simp: findable_def target_def split: option.splits)
  qed
qed

lemma titles_raiseWindow:
  assumes "j < length ws"
  shows "title ` set (raiseWindow j ws) = title ` set ws"
proof -
  have "set (raiseWindow j ws) = set (ws[j := unminimize (ws ! j)])"
    using mset_raiseWindow [OF assms] by (rule mset_eq_setD)
  then have "title ` set (raiseWindow j ws) = set (map title (ws[j := unminimize (ws ! j)]))"
    by simp
  also have "map title (ws[j := unminimize (ws ! j)]) = map title ws"
    using assms by (simp add: map_update list_update_same_conv)
  finally show ?thesis by simp
qed

lemma shape_restoreScript:
  assumes "plain a" "plain t"
  shows "shape (snd (restoreScript cmp (escapeQuotes a) (escapeQuotes t) ps)) = shape ps"
proof -
  define ps' where "ps' = snd (restoreScript cmp (escapeQuotes a) (escapeQuotes t) ps)"
  note frame = restoreScript_frame [OF assms ps'_def]
  have "title ` set (pwindows (ps' ! k)) = title ` set (pwindows (ps ! k))" if "k < length ps" for k
    using frame(3) [OF that]
  proof
    assume "pwindows (ps' ! k) = pwindows (ps ! k)"
    then show ?thesis by simp
  next
    assume "findProcess cmp a ps = Some k
       \<and> (\<exists>j. findWindow cmp t (pwindows (ps ! k)) = Some j
              \<and> pwindows (ps' ! k) = raiseWindow j (pwindows (ps ! k)))"
    then obtain j where fw: "findWindow cmp t (pwindows (ps ! k)) = Some j"
      and raised: "pwindows (ps' ! k) = raiseWindow j (pwindows (ps ! k))"
      by blast
    from fw have "j < length (pwindows (ps ! k))"
      by (auto simp: findWindow_def dest: findIndex_Some)
    then show ?thesis
      unfolding raised by (rule titles_raiseWindow)
  qed
  moreover have "pname (ps' ! k) = pname (ps ! k)" if "k < length ps" for k
    using frame(2) [OF that] by (simp add: static_def)
  ultimately have "shape ps' = shape ps"
    unfolding shape_def using frame(1)
    by (auto intro!: nth_equalityI)
  then show ?thesis by (simp add: ps'_def)
qed


lemma shape_minimizeOthers: "shape (map (minimizeOthers cmp keep) ps) = shape ps"
proof -
  have m: "map title (pwindows (minimizeOthers cmp keep p)) = map title (pwindows p)" for p
    by (auto simp: minimizeOthers_def)
  have "title ` set (pwindows (minimizeOthers cmp keep p)) = title ` set (pwindows p)" for p
    unfolding set_map [symmetric] by (simp only: m)
  then show ?thesis
    by (simp add: shape_def comp_def)
qed

lemma restoreScript_found_iff:
  assumes "plain (appName r)" "plain (windowTitle r)"
  shows "fst (restoreScript cmp (escapeQuotes (appName r)) (escapeQuotes (windowTitle r)) ps)
           = Inr ''found'' \<longleftrightarrow> findable cmp r ps"
  using assms
  by (cases rule: restoreScript_cases [of "appName r" "windowTitle r" cmp ps])
    (auto simp: findable_def target_def)

section \<open>The turn of one window\<close>






lemma scriptTarget_plain: "plainRef w \<Longrightarrow> scriptTarget cmp w ps = target cmp w ps"
  by (simp add: scriptTarget_def target_def plainRef_def readLiteral_escapeQuotes)












section \<open>Switching twice\<close>

subsection \<open>Calls without faults\<close>

lemma no_fault: "True \<notin> set fs \<Longrightarrow> \<not> nextFault fs \<and> True \<notin> set (tl fs)"
  by (cases fs) (auto simp: nextFault_def)

lemma scriptFaults_runAppleScript:
  "scriptFaults (snd (runAppleScript scr d)) = tl (scriptFaults d)"
  by (simp add: runAppleScript_def split: prod.splits)

lemma scriptFaults_makeVisible:
  "True \<notin> set (scriptFaults d) \<Longrightarrow> True \<notin> set (scriptFaults (makeVisible cmp as d))"
  by (induction as arbitrary: d) (auto simp: scriptFaults_runAppleScript no_fault)

lemma scriptFaults_restoreEach:
  "True \<notin> set (scriptFaults d) \<Longrightarrow> True \<notin> set (scriptFaults (snd (restoreEach cmp ws acc d)))"
proof (induction ws arbitrary: acc d)
  case Nil
  then show ?case by simp
next
  case (Cons w ws)
  let ?scr = "restoreScript cmp (escapeQuotes (appName w)) (escapeQuotes (windowTitle w))"
  have "True \<notin> set (scriptFaults (snd (runAppleScript ?scr d)))"
    using Cons.prems by (simp add: scriptFaults_runAppleScript no_fault)
  then have "\<And>acc'. True \<notin> set (scriptFaults (snd (restoreEach cmp ws acc' (snd (runAppleScript ?scr d)))))"
    using Cons.IH by simp
  then show ?case
    by (auto split: prod.splits sum.splits)
qed

subsection \<open>Flags of the processes\<close>

lemma restoreScript_flags:
  assumes "plain a" "plain t"
  shows "map flags (snd (restoreScript cmp (escapeQuotes a) (escapeQuotes t) ps)) = map flags ps"
proof -
  define ps' where "ps' = snd (restoreScript cmp (escapeQuotes a) (escapeQuotes t) ps)"
  note frame = restoreScript_frame [OF assms ps'_def]
  have "map flags ps' = map flags ps"
    using frame(1) frame(2) by (auto intro!: nth_equalityI simp: static_def flags_def)
  then show ?thesis by (simp add: ps'_def)
qed

lemma restoreEach_flags:
  assumes "\<forall>r \<in> set ws. plainRef r"
  shows "map flags (procs (snd (restoreEach cmp ws acc d))) = map flags (procs d)"
  by (rule restoreEach_invariant [where I = "\<lambda>ps. map flags ps = map flags (procs d)"])
    (use assms in \<open>auto simp: restoreScript_flags plainRef_def\<close>)

lemma flags_names: "map flags ps' = map flags ps \<Longrightarrow> map pname ps' = map pname ps"
proof -
  assume "map flags ps' = map flags ps"
  then have "map fst (map flags ps') = map fst (map flags ps)" by simp
  then show ?thesis by (simp add: flags_def comp_def)
qed

lemma flags_nth:
  assumes "map flags ps' = map flags ps" "k < length ps"
  shows "flags (ps' ! k) = flags (ps ! k)"
proof -
  have "length ps' = length ps" using assms(1) by (metis length_map)
  then show ?thesis using assms nth_map [of k ps flags] nth_map [of k ps' flags] by simp
qed

lemma appsVisible_flags:
  assumes "map flags ps' = map flags ps"
  shows "appsVisible cmp ws ps' = appsVisible cmp ws ps"
proof -
  have "visible (ps' ! i) = visible (ps ! i)" if "i < length ps" for i
    using flags_nth [OF assms that] by (simp add: flags_def)
  moreover have "i < length ps" if "findProcess cmp a ps = Some i" for a i
    using that by (auto simp: findProcess_def dest: findIndex_Some)
  ultimately show ?thesis
    unfolding appsVisible_def findProcess_names [OF flags_names [OF assms]]
    by (auto split: option.splits)
qed

lemma flags_minimizeOthers: "map flags (map (minimizeOthers cmp keep) ps) = map flags ps"
  by (simp add: flags_def)

subsection \<open>A visibility pass without effect\<close>

lemma setVisibleScript_id:
  assumes "plain a" "case findProcess cmp a ps of None \<Rightarrow> True | Some i \<Rightarrow> visible (ps ! i)"
  shows "snd (setVisibleScript cmp (escapeQuotes a) ps) = ps"
  using assms
  by (auto simp: setVisibleScript_def readLiteral_escapeQuotes list_update_same_conv
      findProcess_def split: option.splits dest: findIndex_Some)

lemma set_uniqueInOrder [simp]: "set (uniqueInOrder xs) = set xs"
  by (simp add: uniqueInOrder_def)

lemma makeVisible_id:
  assumes "\<forall>r \<in> set ws. plainRef r" "appsVisible cmp ws (procs d)"
  shows "procs (makeVisible cmp (uniqueInOrder (map appName ws)) d) = procs d"
  by (rule makeVisible_invariant [where I = "\<lambda>ps. ps = procs d"])
    (use assms in \<open>auto simp: appsVisible_def plainRef_def intro!: setVisibleScript_id\<close>)

subsection \<open>A minimize step without effect\<close>

lemma minimizeWindow_id: "minimized w \<noteq> Some False \<Longrightarrow> minimizeWindow w = w"
  by (auto simp: minimizeWindow_def isMinimized_def setMinimized_def split: option.splits)

lemma minimizeOthers_id:
  assumes "inScope cmp p \<longrightarrow> othersMinimized cmp keep p"
  shows "minimizeOthers cmp keep p = p"
proof (cases "inScope cmp p")
  case True
  then have "map (\<lambda>w. if \<not> shouldKeep cmp keep (pname p) w then minimizeWindow w else w)
               (pwindows p) = pwindows p"
    using assms by (intro map_idI) (auto simp: othersMinimized_def minimizeWindow_id)
  then show ?thesis
    by (simp add: minimizeOthers_def)
next
  case False
  then show ?thesis
    by (auto simp: minimizeOthers_def inScope_def)
qed

lemma inScope_flags: "flags p' = flags p \<Longrightarrow> inScope cmp p' = inScope cmp p"
  by (simp add: flags_def inScope_def)

subsection \<open>The loop without faults\<close>

lemma restoreEach_Cons_nofault:
  assumes "\<not> nextFault (scriptFaults d)" "plainRef w"
  shows "restoreEach cmp (w # ws) acc d
     = restoreEach cmp ws
         (if findable cmp w (procs d) then acc\<lparr>shown := shown acc + 1\<rparr>
          else acc\<lparr>notFound := notFound acc @ [w]\<rparr>)
         \<lparr>procs = snd (restoreScript cmp (escapeQuotes (appName w)) (escapeQuotes (windowTitle w))
                         (procs d)),
          scriptFaults = tl (scriptFaults d)\<rparr>"
proof -
  have plain: "plain (appName w)" "plain (windowTitle w)"
    using assms(2) by (simp_all add: plainRef_def)
  note iff = restoreScript_found_iff [OF plain, of cmp "procs d"]
  from plain show ?thesis
    by (cases rule: restoreScript_cases [of "appName w" "windowTitle w" cmp "procs d"])
      (use assms(1) iff in \<open>auto simp: runAppleScript_def\<close>)
qed

lemma restoreEach_nofault_result:
  assumes "True \<notin> set (scriptFaults d)" "\<forall>r \<in> set ws. plainRef r"
  shows "fst (restoreEach cmp ws acc d)
     = \<lparr>shown = shown acc + length (filter (\<lambda>r. findable cmp r (procs d)) ws),
        notFound = notFound acc @ filter (\<lambda>r. \<not> findable cmp r (procs d)) ws\<rparr>"
  using assms
proof (induction ws arbitrary: acc d)
  case Nil
  then show ?case by simp
next
  case (Cons w ws)
  have w: "plainRef w" and ws: "\<forall>r \<in> set ws. plainRef r"
    using Cons.prems(2) by simp_all
  have plain: "plain (appName w)" "plain (windowTitle w)"
    using w by (simp_all add: plainRef_def)
  define d1 where "d1 = \<lparr>procs = snd (restoreScript cmp (escapeQuotes (appName w))
      (escapeQuotes (windowTitle w)) (procs d)), scriptFaults = tl (scriptFaults d)\<rparr>"
  have nf: "\<not> nextFault (scriptFaults d)" "True \<notin> set (scriptFaults d1)"
    using no_fault [OF Cons.prems(1)] by (simp_all add: d1_def)
  have same: "findable cmp r (procs d1) = findable cmp r (procs d)" for r
    using findable_shape [OF shape_restoreScript [OF plain, of cmp "procs d"]]
    by (simp add: d1_def)
  show ?case
    unfolding restoreEach_Cons_nofault [OF nf(1) w] d1_def [symmetric]
    by (simp add: Cons.IH [OF nf(2) ws] same)
qed

lemma settled_preserved:
  assumes "plain a" "plain t" "settled cmp r ps"
  shows "settled cmp r (snd (restoreScript cmp (escapeQuotes a) (escapeQuotes t) ps))"
  using assms(3) restored_preserved [OF assms(1,2), of cmp r ps]
    findable_shape [OF shape_restoreScript [OF assms(1,2), of cmp ps], of cmp r]
  by (auto simp: settled_def)

lemma settled_established:
  assumes "plain (appName r)" "plain (windowTitle r)"
  shows "settled cmp r (snd (restoreScript cmp (escapeQuotes (appName r))
                               (escapeQuotes (windowTitle r)) ps))"
proof (cases "findable cmp r ps")
  case True
  then show ?thesis
    using restored_established [OF assms, of cmp ps] restoreScript_found_iff [OF assms, of cmp ps]
    by (auto simp: settled_def)
next
  case False
  then show ?thesis
    using findable_shape [OF shape_restoreScript [OF assms, of cmp ps], of cmp r]
    by (simp add: settled_def)
qed

lemma restoreEach_settled:
  assumes "True \<notin> set (scriptFaults d)" "\<forall>r \<in> set ws. plainRef r"
    and "\<forall>r \<in> S. settled cmp r (procs d)"
  shows "\<forall>r \<in> S \<union> set ws. settled cmp r (procs (snd (restoreEach cmp ws acc d)))"
  using assms
proof (induction ws arbitrary: S acc d)
  case Nil
  then show ?case by simp
next
  case (Cons w ws)
  have w: "plainRef w" and ws: "\<forall>r \<in> set ws. plainRef r"
    using Cons.prems(2) by simp_all
  have plain: "plain (appName w)" "plain (windowTitle w)"
    using w by (simp_all add: plainRef_def)
  define d1 where "d1 = \<lparr>procs = snd (restoreScript cmp (escapeQuotes (appName w))
      (escapeQuotes (windowTitle w)) (procs d)), scriptFaults = tl (scriptFaults d)\<rparr>"
  have nf: "\<not> nextFault (scriptFaults d)" "True \<notin> set (scriptFaults d1)"
    using no_fault [OF Cons.prems(1)] by (simp_all add: d1_def)
  have "\<forall>r \<in> insert w S. settled cmp r (procs d1)"
    using Cons.prems(3) settled_preserved [OF plain] settled_established [OF plain]
    by (auto simp: d1_def)
  from Cons.IH [OF nf(2) ws this] show ?case
    unfolding restoreEach_Cons_nofault [OF nf(1) w] d1_def [symmetric]
    by simp
qed

subsection \<open>The visible windows\<close>

lemma mset_concat_nth:
  assumes "length xs = length ys" "\<And>k. k < length xs \<Longrightarrow> mset (g (xs ! k)) = mset (g (ys ! k))"
  shows "mset (concat (map g xs)) = mset (concat (map g ys))"
  using assms
proof (induction xs ys rule: list_induct2)
  case Nil
  then show ?case by simp
next
  case (Cons x xs y ys)
  have "mset (g x) = mset (g y)"
    using Cons.prems [of 0] by simp
  moreover have "mset (concat (map g xs)) = mset (concat (map g ys))"
    using Cons.IH Cons.prems [of "Suc _"] by simp
  ultimately show ?case by simp
qed

lemma visibleWindows_restoreScript:
  assumes plain: "plain (appName r)" "plain (windowTitle r)" and st: "settled cmp r ps"
  shows "mset (visibleWindows cmp (snd (restoreScript cmp (escapeQuotes (appName r))
                                          (escapeQuotes (windowTitle r)) ps)))
           = mset (visibleWindows cmp ps)"
proof -
  define ps' where
    "ps' = snd (restoreScript cmp (escapeQuotes (appName r)) (escapeQuotes (windowTitle r)) ps)"
  note frame = restoreScript_frame [OF plain ps'_def]
  have win: "mset (pwindows (ps' ! k)) = mset (pwindows (ps ! k))" if k: "k < length ps" for k
    using frame(3) [OF k]
  proof
    assume "pwindows (ps' ! k) = pwindows (ps ! k)"
    then show ?thesis by simp
  next
    assume "findProcess cmp (appName r) ps = Some k
       \<and> (\<exists>j. findWindow cmp (windowTitle r) (pwindows (ps ! k)) = Some j
              \<and> pwindows (ps' ! k) = raiseWindow j (pwindows (ps ! k)))"
    then obtain j where fp: "findProcess cmp (appName r) ps = Some k"
      and fw: "findWindow cmp (windowTitle r) (pwindows (ps ! k)) = Some j"
      and raised: "pwindows (ps' ! k) = raiseWindow j (pwindows (ps ! k))"
      by blast
    have tg: "target cmp r ps = Some (k, j)"
      using fp fw by (simp add: target_def)
    then have "minimized (pwindows (ps ! k) ! j) \<noteq> Some True"
      using st by (simp add: settled_def findable_def restored_def)
    moreover have "j < length (pwindows (ps ! k))"
      using fw by (auto simp: findWindow_def dest: findIndex_Some)
    ultimately show ?thesis
      unfolding raised by (simp add: mset_raiseWindow)
  qed
  have "mset (visibleWindows cmp ps') = mset (visibleWindows cmp ps)"
    unfolding visibleWindows_def
  proof (rule mset_concat_nth)
    show "length ps' = length ps" by (rule frame(1))
  next
    fix k assume "k < length ps'"
    then have k: "k < length ps" using frame(1) by simp
    show "mset (if visible (ps' ! k) \<and> \<not> backgroundOnly (ps' ! k)
            then map (\<lambda>w. (pname (ps' ! k), title w, bundleIdentifier (ps' ! k)))
                   (filter (\<lambda>w. \<not> scriptEq cmp (title w) [] \<and> \<not> isMinimized w) (pwindows (ps' ! k)))
            else [])
        = mset (if visible (ps ! k) \<and> \<not> backgroundOnly (ps ! k)
            then map (\<lambda>w. (pname (ps ! k), title w, bundleIdentifier (ps ! k)))
                   (filter (\<lambda>w. \<not> scriptEq cmp (title w) [] \<and> \<not> isMinimized w) (pwindows (ps ! k)))
            else [])"
      using frame(2) [OF k] win [OF k] by (simp add: static_def)
  qed
  then show ?thesis by (simp add: ps'_def)
qed

subsection \<open>The second switch\<close>

lemma restoreEach_shape:
  assumes "\<forall>r \<in> set ws. plainRef r"
  shows "shape (procs (snd (restoreEach cmp ws acc d))) = shape (procs d)"
  by (rule restoreEach_invariant [where I = "\<lambda>ps. shape ps = shape (procs d)"])
    (use assms in \<open>auto simp: shape_restoreScript plainRef_def\<close>)

lemma restoreEach_visibleWindows:
  assumes plain: "\<forall>r \<in> set ws. plainRef r" and st: "\<forall>r \<in> set ws. settled cmp r (procs d)"
  shows "mset (visibleWindows cmp (procs (snd (restoreEach cmp ws acc d))))
           = mset (visibleWindows cmp (procs d))"
proof -
  let ?I = "\<lambda>ps. (\<forall>r \<in> set ws. settled cmp r ps)
              \<and> mset (visibleWindows cmp ps) = mset (visibleWindows cmp (procs d))"
  have "?I (procs (snd (restoreEach cmp ws acc d)))"
  proof (rule restoreEach_invariant [where I = ?I])
    show "?I (procs d)" using st by simp
  next
    fix w ps
    assume w: "w \<in> set ws" and I: "?I ps"
    have p: "plain (appName w)" "plain (windowTitle w)"
      using plain w by (auto simp: plainRef_def)
    show "?I (snd (restoreScript cmp (escapeQuotes (appName w)) (escapeQuotes (windowTitle w)) ps))"
      using I w settled_preserved [OF p] visibleWindows_restoreScript [OF p, of cmp ps]
      by auto
  qed
  then show ?thesis by simp
qed

lemma switchTo_nofault:
  assumes plain: "\<forall>r \<in> set ws. plainRef r"
    and nofault: "True \<notin> set (scriptFaults d)"
    and vis: "appsVisible cmp ws (procs d)"
  obtains dv where
    "procs dv = map (minimizeOthers cmp (keepSet ws)) (procs d)"
    "True \<notin> set (scriptFaults dv)"
    "switchTo cmp ws d = (Inr (fst (restoreEach cmp ws \<lparr>shown = 0, notFound = []\<rparr> dv)),
                           snd (restoreEach cmp ws \<lparr>shown = 0, notFound = []\<rparr> dv))"
proof -
  define d1 where "d1 = \<lparr>procs = map (minimizeOthers cmp (keepSet ws)) (procs d),
                          scriptFaults = tl (scriptFaults d)\<rparr>"
  define dv where "dv = makeVisible cmp (uniqueInOrder (map appName ws)) d1"
  have nf: "\<not> nextFault (scriptFaults d)" "True \<notin> set (scriptFaults d1)"
    using no_fault [OF nofault] by (simp_all add: d1_def)
  have "appsVisible cmp ws (procs d1)"
    using vis appsVisible_flags [OF flags_minimizeOthers, of cmp ws cmp "keepSet ws" "procs d"]
    by (simp add: d1_def)
  then have 1: "procs dv = map (minimizeOthers cmp (keepSet ws)) (procs d)"
    using makeVisible_id [OF plain, of cmp d1] by (simp add: dv_def d1_def)
  have 2: "True \<notin> set (scriptFaults dv)"
    using scriptFaults_makeVisible [OF nf(2)] by (simp add: dv_def)
  have 3: "switchTo cmp ws d = (Inr (fst (restoreEach cmp ws \<lparr>shown = 0, notFound = []\<rparr> dv)),
                           snd (restoreEach cmp ws \<lparr>shown = 0, notFound = []\<rparr> dv))"
    using nf(1) plain
    by (simp add: switchTo_def minimizeAllExcept_plain restoreWindows_def Let_def
        d1_def [symmetric] dv_def [symmetric] split: prod.splits)
  from that [OF 1 2 3] show ?thesis .
qed

text \<open>
  Claim C3, as it stands, fails when an application of the group is hidden. The first
  switch passes over the hidden Cursor in its minimize step and then makes it visible, so
  \<open>notes.md\<close>, which is not in the group, is on the screen; the second switch finds
  Cursor visible and minimizes that window.
\<close>

theorem switchTo_twice_counterexample:
  "visibleWindows appleScriptDefault
     (procs (snd (switchTo appleScriptDefault [ref ''Cursor'' ''main.ts''] hiddenDesktop)))
     = [(''Cursor'', ''main.ts'', ''com.example.Cursor''),
        (''Cursor'', ''notes.md'', ''com.example.Cursor'')]
   \<and> visibleWindows appleScriptDefault
     (procs (snd (switchTo appleScriptDefault [ref ''Cursor'' ''main.ts'']
                    (snd (switchTo appleScriptDefault [ref ''Cursor'' ''main.ts''] hiddenDesktop)))))
     = [(''Cursor'', ''main.ts'', ''com.example.Cursor'')]"
  by code_simp

text \<open>
  Claim C3, amended. Let the names and titles of the group be without backslash and the
  two text comparisons agree on keys. If no call faults and the applications of the group
  are visible before the first switch, then a second switch right after the first returns
  the same result (the same \<open>shown\<close> and the same \<open>notFound\<close>), and the windows
  visible after it are those visible after the first.
\<close>

theorem switchTo_twice:
  assumes agree: "agreeOnKeys cmp" and plain: "\<forall>r \<in> set ws. plainRef r"
    and nofault: "True \<notin> set (scriptFaults d)"
    and vis: "appsVisible cmp ws (procs d)"
  shows "fst (switchTo cmp ws (snd (switchTo cmp ws d))) = fst (switchTo cmp ws d)
    \<and> mset (visibleWindows cmp (procs (snd (switchTo cmp ws (snd (switchTo cmp ws d))))))
        = mset (visibleWindows cmp (procs (snd (switchTo cmp ws d))))"
proof -
  let ?keep = "keepSet ws"
  let ?acc = "\<lparr>shown = 0, notFound = []\<rparr>"
  from plain nofault vis obtain dv where dv:
    "procs dv = map (minimizeOthers cmp ?keep) (procs d)"
    "True \<notin> set (scriptFaults dv)"
    "switchTo cmp ws d = (Inr (fst (restoreEach cmp ws ?acc dv)), snd (restoreEach cmp ws ?acc dv))"
    by (rule switchTo_nofault)
  define d' where "d' = snd (restoreEach cmp ws ?acc dv)"
  have first: "snd (switchTo cmp ws d) = d'" "fst (switchTo cmp ws d) = Inr (fst (restoreEach cmp ws ?acc dv))"
    using dv(3) by (simp_all add: d'_def)
  have nf': "True \<notin> set (scriptFaults d')"
    using scriptFaults_restoreEach [OF dv(2)] by (simp add: d'_def)
  have "map flags (procs d') = map flags (procs dv)"
    using restoreEach_flags [OF plain, of cmp ?acc dv] by (simp add: d'_def)
  also have "\<dots> = map flags (procs d)"
    unfolding dv(1) by (rule flags_minimizeOthers)
  finally have fl: "map flags (procs d') = map flags (procs d)" .
  have len: "length (procs d') = length (procs d)"
    using fl by (metis length_map)
  have vis': "appsVisible cmp ws (procs d')"
    using vis appsVisible_flags [OF fl] by simp
  have kept: "kept_by_loops cmp ?keep (procs dv) (procs d')"
    unfolding d'_def
    by (rule restoreEach_invariant [where I = "kept_by_loops cmp ?keep (procs dv)"])
      (use agree plain in \<open>auto intro: kept_by_loops_refl kept_by_loops_restore\<close>)
  have unchanged: "map (minimizeOthers cmp ?keep) (procs d') = procs d'"
  proof (rule map_idI)
    fix p assume "p \<in> set (procs d')"
    then obtain k where k: "k < length (procs d)" and p: "p = procs d' ! k"
      using len by (auto simp: in_set_conv_nth)
    have "othersMinimized cmp ?keep p" if "inScope cmp p"
    proof -
      have "inScope cmp (procs d ! k)"
        using that inScope_flags [OF flags_nth [OF fl k]] p by simp
      then have "othersMinimized cmp ?keep (procs dv ! k)"
        using k by (simp add: dv(1) minimizeOthers_othersMinimized)
      then show ?thesis
        using kept k p by (simp add: kept_by_loops_def dv(1))
    qed
    then show "minimizeOthers cmp ?keep p = p"
      by (simp add: minimizeOthers_id)
  qed
  from plain nf' vis' obtain dv' where dv':
    "procs dv' = map (minimizeOthers cmp ?keep) (procs d')"
    "True \<notin> set (scriptFaults dv')"
    "switchTo cmp ws d' = (Inr (fst (restoreEach cmp ws ?acc dv')), snd (restoreEach cmp ws ?acc dv'))"
    by (rule switchTo_nofault)
  have same: "procs dv' = procs d'"
    using dv'(1) unchanged by simp
  have sh: "shape (procs dv') = shape (procs dv)"
    using restoreEach_shape [OF plain, of cmp ?acc dv] same by (simp add: d'_def)
  have "fst (restoreEach cmp ws ?acc dv') = fst (restoreEach cmp ws ?acc dv)"
    unfolding restoreEach_nofault_result [OF dv'(2) plain] restoreEach_nofault_result [OF dv(2) plain]
    using findable_shape [OF sh] by simp
  then have results: "fst (switchTo cmp ws d') = fst (switchTo cmp ws d)"
    using dv'(3) first(2) by simp
  have "\<forall>r \<in> set ws. settled cmp r (procs dv')"
    using restoreEach_settled [OF dv(2) plain, of "{}" cmp ?acc] same by (simp add: d'_def)
  from restoreEach_visibleWindows [OF plain this, of ?acc]
  have "mset (visibleWindows cmp (procs (snd (switchTo cmp ws d')))) = mset (visibleWindows cmp (procs d'))"
    using dv'(3) same by simp
  with results show ?thesis
    by (simp add: first(1))
qed

theorem switchTo_twice_witness:
  "agreeOnKeys appleScriptDefault
   \<and> plainRef (ref ''Cursor'' ''main.ts'') \<and> plainRef (ref ''Terminal'' ''bash'')
   \<and> True \<notin> set (scriptFaults devDesktop)
   \<and> appsVisible appleScriptDefault devGroup (procs devDesktop)
   \<and> fst (switchTo appleScriptDefault devGroup (snd (switchTo appleScriptDefault devGroup devDesktop)))
       = fst (switchTo appleScriptDefault devGroup devDesktop)
   \<and> mset (visibleWindows appleScriptDefault
         (procs (snd (switchTo appleScriptDefault devGroup
                        (snd (switchTo appleScriptDefault devGroup devDesktop))))))
       = mset (visibleWindows appleScriptDefault
           (procs (snd (switchTo appleScriptDefault devGroup devDesktop))))"
proof -
  have p: "\<forall>r \<in> set devGroup. plainRef r"
    by code_simp
  have n: "True \<notin> set (scriptFaults devDesktop)"
    by (simp add: devDesktop_def)
  have v: "appsVisible appleScriptDefault devGroup (procs devDesktop)"
    by code_simp
  from switchTo_twice [OF agreeOnKeys_appleScriptDefault p n v]
  show ?thesis
    using agreeOnKeys_appleScriptDefault p n v by (simp add: devGroup_def)
qed

end
